theory Spec2Isabelle
  imports Complex_Main
begin

section \<open>Sampling penalty kernels and indexed copy of the batch scheduler\<close>

text \<open>
  The kernels of \<^verbatim>\<open>sampling_penalty_kernels.cu\<close> transform a logits buffer in place.
  A device buffer is a list; a pointer that may be \<^verbatim>\<open>nullptr\<close> is an option. Sizes and
  loop indices are natural numbers (they are assumed to fit the source's \<^verbatim>\<open>int\<close>),
  token ids are integers. The element types \<^verbatim>\<open>float\<close>, \<^verbatim>\<open>half\<close> and
  \<^verbatim>\<open>__nv_bfloat16\<close> are modelled by the reals: the arithmetic is exact, rounding is
  not part of the model. \<^verbatim>\<open>getMaxValue<T>()\<close> comes from a header and is a parameter
  \<open>MAX_T_VAL\<close> of every kernel that uses it.
\<close>

subsection \<open>Launch geometry\<close>

text \<open>
  The loop \<^verbatim>\<open>for (int index = start; index < bound; index += stride)\<close> of one thread.
  A launch with an empty block or grid is rejected by the runtime and runs no thread, so
  a stride of zero leaves the state as it is.
\<close>

function stride_loop :: "(nat \<Rightarrow> 's \<Rightarrow> 's) \<Rightarrow> nat \<Rightarrow> nat \<Rightarrow> nat \<Rightarrow> 's \<Rightarrow> 's" where
  "stride_loop body stride bound index s =
     (if stride = 0 \<or> bound \<le> index then s
      else stride_loop body stride bound (index + stride) (body index s))"
  by pat_completeness auto
termination
  by (relation "measure (\<lambda>(body, stride, bound, index, s). bound - index)") auto

declare stride_loop.simps [simp del]

text \<open>
  A one-dimensional launch \<^verbatim>\<open><<<gridDim, blockDim>>>\<close>: the threads run one after the
  other, block by block; a thread knows its \<^verbatim>\<open>blockIdx.x\<close> and \<^verbatim>\<open>threadIdx.x\<close>.
\<close>

definition launch :: "nat \<Rightarrow> nat \<Rightarrow> (nat \<Rightarrow> nat \<Rightarrow> 's \<Rightarrow> 's) \<Rightarrow> 's \<Rightarrow> 's" where
  "launch gridDim blockDim thread s =
     fold (\<lambda>tid. thread (tid div blockDim) (tid mod blockDim)) [0..<gridDim * blockDim] s"

text \<open>The indices one thread's loop visits, in order.\<close>

function stride_indices :: "nat \<Rightarrow> nat \<Rightarrow> nat \<Rightarrow> nat list" where
  "stride_indices stride bound index =
     (if stride = 0 \<or> bound \<le> index then []
      else index # stride_indices stride bound (index + stride))"
  by pat_completeness auto
termination
  by (relation "measure (\<lambda>(stride, bound, index). bound - index)") auto

declare stride_indices.simps [simp del]

text \<open>The indices a grid-stride launch of \<open>n\<close> threads visits, thread by thread.\<close>

definition schedule :: "nat \<Rightarrow> nat \<Rightarrow> nat list" where
  "schedule n bound = concat (map (stride_indices n bound) [0..<n])"

datatype kernel_error = AssertionFailed | OutOfBounds | DivisionByZero

subsection \<open>Temperature penalty\<close>

text \<open>The constant \<^verbatim>\<open>1e-6f\<close>.\<close>

definition eps :: real where
  "eps = 1 / 1000000"

text \<open>One iteration of the loop of \<^verbatim>\<open>applyTemperaturePenalty<T>\<close>.\<close>

definition applyTemperaturePenalty_body ::
  "real \<Rightarrow> real list option \<Rightarrow> real \<Rightarrow> nat \<Rightarrow> nat \<Rightarrow> nat \<Rightarrow> real list \<Rightarrow> real list" where
  "applyTemperaturePenalty_body MAX_T_VAL bias temperature_inverse vocab_size vocab_size_padd
       index logits =
     (let bias_val = (case bias of None \<Rightarrow> 0 | Some b \<Rightarrow> b ! (index mod vocab_size_padd))
      in if index mod vocab_size_padd < vocab_size
         then logits[index := (logits ! index + bias_val) * temperature_inverse]
         else logits[index := - MAX_T_VAL])"

definition applyTemperaturePenalty ::
  "nat \<Rightarrow> nat \<Rightarrow> real \<Rightarrow> real list \<Rightarrow> real list option \<Rightarrow> real \<Rightarrow> nat \<Rightarrow> nat \<Rightarrow> nat
     \<Rightarrow> real list" where
  "applyTemperaturePenalty gridDim blockDim MAX_T_VAL logits bias temperature_inverse m
       vocab_size vocab_size_padd =
     launch gridDim blockDim
       (\<lambda>blockIdx threadIdx.
          stride_loop
            (applyTemperaturePenalty_body MAX_T_VAL bias temperature_inverse vocab_size
               vocab_size_padd)
            (blockDim * gridDim) (m * vocab_size_padd) (blockIdx * blockDim + threadIdx))
       logits"

text \<open>
  The specialization for \<^verbatim>\<open>half2\<close>: the buffers are read as pairs of halves, pair
  \<open>index\<close> being the elements \<open>2 * index\<close> and \<open>2 * index + 1\<close>;
  \<^verbatim>\<open>__hadd2\<close> and \<^verbatim>\<open>__hmul2\<close> work on both lanes. The store is inside the
  test on \<^verbatim>\<open>vocab_idx\<close>, as in the source.
\<close>

definition applyTemperaturePenalty_half2_body ::
  "real list option \<Rightarrow> real \<Rightarrow> nat \<Rightarrow> nat \<Rightarrow> nat \<Rightarrow> real list \<Rightarrow> real list" where
  "applyTemperaturePenalty_half2_body bias temperature_inverse vocab_size vocab_size_padded
       index logits =
     (let mask_val = (- 65504, - 65504);
          temp_inv = (temperature_inverse, temperature_inverse);
          half_vocab_size = vocab_size div 2;
          half_vocab_size_padded = vocab_size_padded div 2;
          vocab_idx = index mod half_vocab_size_padded;
          logit = (if vocab_idx < half_vocab_size
                   then (logits ! (2 * index), logits ! (2 * index + 1)) else mask_val)
      in if vocab_idx < half_vocab_size
         then (let logit = (case bias of None \<Rightarrow> logit
                            | Some b \<Rightarrow> (fst logit + b ! (2 * vocab_idx),
                                         snd logit + b ! (2 * vocab_idx + 1)))
               in logits[2 * index := fst logit * fst temp_inv,
                         2 * index + 1 := snd logit * snd temp_inv])
         else logits)"

definition applyTemperaturePenalty_half2 ::
  "nat \<Rightarrow> nat \<Rightarrow> real list \<Rightarrow> real list option \<Rightarrow> real \<Rightarrow> nat \<Rightarrow> nat \<Rightarrow> nat \<Rightarrow> real list" where
  "applyTemperaturePenalty_half2 gridDim blockDim logits bias temperature_inverse batch_size
       vocab_size vocab_size_padded =
     launch gridDim blockDim
       (\<lambda>blockIdx threadIdx.
          stride_loop
            (applyTemperaturePenalty_half2_body bias temperature_inverse vocab_size
               vocab_size_padded)
            (blockDim * gridDim) (batch_size * (vocab_size_padded div 2))
            (blockIdx * blockDim + threadIdx))
       logits"

text \<open>
  The host function. \<open>is_half\<close> is \<^verbatim>\<open>std::is_same<T, half>::value\<close>. The grid size
  divides by \<^verbatim>\<open>block.x\<close>, which is zero for an empty padded vocabulary.
\<close>

definition invokeApplyTemperaturePenalty ::
  "bool \<Rightarrow> real \<Rightarrow> real list \<Rightarrow> real list option \<Rightarrow> real \<Rightarrow> nat \<Rightarrow> nat \<Rightarrow> nat
     \<Rightarrow> kernel_error + real list" where
  "invokeApplyTemperaturePenalty is_half MAX_T_VAL logits bias temperature batch_size
       vocab_size vocab_size_padd =
     (let block = min vocab_size_padd 1024
      in if block = 0 then Inl DivisionByZero
         else
           (let grid = min (batch_size * vocab_size_padd div block) 65536;
                temperature_inverse = 1 / (temperature + eps)
            in if is_half \<and> vocab_size mod 2 = 0 \<and> vocab_size_padd mod 2 = 0
               then Inr (applyTemperaturePenalty_half2 grid block logits bias
                           temperature_inverse batch_size vocab_size vocab_size_padd)
               else Inr (applyTemperaturePenalty grid block MAX_T_VAL logits bias
                           temperature_inverse batch_size vocab_size vocab_size_padd)))"

text \<open>
  The batched kernel keeps one inverse temperature per row in shared memory. Thread
  \<open>threadIdx\<close> of a block writes the entry \<open>threadIdx\<close> when \<open>threadIdx < batch_size\<close>;
  an entry no thread of the block writes keeps what the shared memory held before
  (\<open>smem\<close>, the contents the block finds at launch).
\<close>

definition inv_temperatures :: "(nat \<Rightarrow> real) \<Rightarrow> real list \<Rightarrow> nat \<Rightarrow> nat \<Rightarrow> nat \<Rightarrow> real" where
  "inv_temperatures smem temperatures blockDim batch_size =
     (\<lambda>i. if i < blockDim \<and> i < batch_size then 1 / (temperatures ! i + eps) else smem i)"

definition batchApplyTemperaturePenalty_body ::
  "real \<Rightarrow> real list option \<Rightarrow> (nat \<Rightarrow> real) \<Rightarrow> nat \<Rightarrow> nat \<Rightarrow> nat \<Rightarrow> real list \<Rightarrow> real list" where
  "batchApplyTemperaturePenalty_body MAX_T_VAL bias inv_temps vocab_size vocab_size_padd
       index logits =
     (let batch_idx = index div vocab_size_padd;
          vocab_idx = index mod vocab_size_padd;
          logit = (if vocab_idx < vocab_size then logits ! index else - MAX_T_VAL);
          logit = (if vocab_idx < vocab_size
                   then (let logit = (case bias of None \<Rightarrow> logit
                                      | Some b \<Rightarrow> logit + b ! vocab_idx)
                         in logit * inv_temps batch_idx)
                   else logit)
      in logits[index := logit])"

definition batchApplyTemperaturePenalty ::
  "nat \<Rightarrow> nat \<Rightarrow> (nat \<Rightarrow> nat \<Rightarrow> real) \<Rightarrow> real \<Rightarrow> real list \<Rightarrow> real list option \<Rightarrow> real list
     \<Rightarrow> nat \<Rightarrow> nat \<Rightarrow> nat \<Rightarrow> real list" where
  "batchApplyTemperaturePenalty gridDim blockDim smem MAX_T_VAL logits bias temperatures
       batch_size vocab_size vocab_size_padd =
     launch gridDim blockDim
       (\<lambda>blockIdx threadIdx.
          stride_loop
            (batchApplyTemperaturePenalty_body MAX_T_VAL bias
               (inv_temperatures (smem blockIdx) temperatures blockDim batch_size)
               vocab_size vocab_size_padd)
            (blockDim * gridDim) (batch_size * vocab_size_padd)
            (blockIdx * blockDim + threadIdx))
       logits"

text \<open>The \<^verbatim>\<open>half2\<close> variant of the batched kernel; its shared memory holds pairs.\<close>

definition h2_inv_temperatures ::
  "(nat \<Rightarrow> real \<times> real) \<Rightarrow> real list \<Rightarrow> nat \<Rightarrow> nat \<Rightarrow> nat \<Rightarrow> real \<times> real" where
  "h2_inv_temperatures smem temperatures blockDim batch_size =
     (\<lambda>i. if i < blockDim \<and> i < batch_size
          then (1 / (temperatures ! i + eps), 1 / (temperatures ! i + eps)) else smem i)"

definition batchApplyTemperaturePenalty_h2_body ::
  "real list option \<Rightarrow> (nat \<Rightarrow> real \<times> real) \<Rightarrow> nat \<Rightarrow> nat \<Rightarrow> nat \<Rightarrow> real list \<Rightarrow> real list" where
  "batchApplyTemperaturePenalty_h2_body bias h2_inv_temps vocab_size vocab_size_padded
       index logits =
     (let mask_val = (- 65504, - 65504);
          half_vocab_size = vocab_size div 2;
          half_vocab_size_padded = vocab_size_padded div 2;
          batch_idx = index div half_vocab_size_padded;
          vocab_idx = index mod half_vocab_size_padded;
          logit = (if vocab_idx < half_vocab_size
                   then (logits ! (2 * index), logits ! (2 * index + 1)) else mask_val)
      in if vocab_idx < half_vocab_size
         then (let logit = (case bias of None \<Rightarrow> logit
                            | Some b \<Rightarrow> (fst logit + b ! (2 * vocab_idx),
                                         snd logit + b ! (2 * vocab_idx + 1)))
               in logits[2 * index := fst logit * fst (h2_inv_temps batch_idx),
                         2 * index + 1 := snd logit * snd (h2_inv_temps batch_idx)])
         else logits)"

definition batchApplyTemperaturePenalty_h2 ::
  "nat \<Rightarrow> nat \<Rightarrow> (nat \<Rightarrow> nat \<Rightarrow> real \<times> real) \<Rightarrow> real list \<Rightarrow> real list option \<Rightarrow> real list
     \<Rightarrow> nat \<Rightarrow> nat \<Rightarrow> nat \<Rightarrow> real list" where
  "batchApplyTemperaturePenalty_h2 gridDim blockDim smem logits bias temperatures batch_size
       vocab_size vocab_size_padded =
     launch gridDim blockDim
       (\<lambda>blockIdx threadIdx.
          stride_loop
            (batchApplyTemperaturePenalty_h2_body bias
               (h2_inv_temperatures (smem blockIdx) temperatures blockDim batch_size)
               vocab_size vocab_size_padded)
            (blockDim * gridDim) (batch_size * (vocab_size_padded div 2))
            (blockIdx * blockDim + threadIdx))
       logits"

definition invokeBatchApplyTemperaturePenalty ::
  "bool \<Rightarrow> (nat \<Rightarrow> nat \<Rightarrow> real) \<Rightarrow> (nat \<Rightarrow> nat \<Rightarrow> real \<times> real) \<Rightarrow> real \<Rightarrow> real list
     \<Rightarrow> real list option \<Rightarrow> real list \<Rightarrow> nat \<Rightarrow> nat \<Rightarrow> nat \<Rightarrow> kernel_error + real list" where
  "invokeBatchApplyTemperaturePenalty is_half smem smem_h2 MAX_T_VAL logits bias temperatures
       batch_size vocab_size vocab_size_padd =
     (let block = min vocab_size_padd 1024
      in if block = 0 then Inl DivisionByZero
         else
           (let grid = min (batch_size * vocab_size_padd div block) 65536
            in if is_half \<and> vocab_size mod 2 = 0 \<and> vocab_size_padd mod 2 = 0
               then Inr (batchApplyTemperaturePenalty_h2 grid block smem_h2 logits bias
                           temperatures batch_size vocab_size vocab_size_padd)
               else Inr (batchApplyTemperaturePenalty grid block smem MAX_T_VAL logits bias
                           temperatures batch_size vocab_size vocab_size_padd)))"

text \<open>
  The kernel \<^verbatim>\<open>batchApplyTemperaturePenalty_v2<T, vec_size>\<close>. Its grid has two
  dimensions: \<^verbatim>\<open>blockIdx.y\<close> is the row \<open>bi\<close>, and \<open>row\<close> below is the offset
  \<^verbatim>\<open>bi * vocab_size_padded\<close> added to \<^verbatim>\<open>logits\<close>. One iteration loads
  \<open>vec_size\<close> elements, processes them and stores them. The parameter \<open>bias\<close> is
  received and never read, as in the source.
\<close>

definition batchApplyTemperaturePenalty_v2_body ::
  "nat \<Rightarrow> real \<Rightarrow> real \<Rightarrow> nat \<Rightarrow> nat \<Rightarrow> nat \<Rightarrow> real list \<Rightarrow> real list" where
  "batchApplyTemperaturePenalty_v2_body vec_size MAX_T_VAL scale vocab_size row i logits =
     (let vec = map (\<lambda>j. logits ! (row + i + j)) [0..<vec_size];
          vec = map (\<lambda>c. if i + c < vocab_size then vec ! c * scale else - MAX_T_VAL)
                  [0..<vec_size]
      in fold (\<lambda>j l. l[row + i + j := vec ! j]) [0..<vec_size] logits)"

definition batchApplyTemperaturePenalty_v2 ::
  "nat \<Rightarrow> nat \<Rightarrow> nat \<Rightarrow> nat \<Rightarrow> real \<Rightarrow> real list \<Rightarrow> real list option \<Rightarrow> real list
     \<Rightarrow> nat \<Rightarrow> nat \<Rightarrow> nat \<Rightarrow> real list" where
  "batchApplyTemperaturePenalty_v2 vec_size gridDim_x gridDim_y blockDim MAX_T_VAL logits bias
       temperatures batch_size vocab_size vocab_size_padded =
     fold
       (\<lambda>bi. launch gridDim_x blockDim
          (\<lambda>blockIdx threadIdx.
             (let vi = blockIdx * blockDim + threadIdx;
                  scale = 1 / (temperatures ! bi + eps);
                  step = gridDim_x * blockDim * vec_size
              in stride_loop
                   (batchApplyTemperaturePenalty_v2_body vec_size MAX_T_VAL scale vocab_size
                      (bi * vocab_size_padded))
                   step vocab_size_padded (vi * vec_size))))
       [0..<gridDim_y] logits"

definition invokeBatchApplyTemperaturePenalty_v2 ::
  "real \<Rightarrow> real list \<Rightarrow> real list option \<Rightarrow> real list \<Rightarrow> nat \<Rightarrow> nat \<Rightarrow> nat \<Rightarrow> real list" where
  "invokeBatchApplyTemperaturePenalty_v2 MAX_T_VAL logits bias temperatures batch_size
       vocab_size vocab_size_padded =
     (let invoke = (\<lambda>vec_size.
            (let threads = 256;
                 blocks_per_tok =
                   (vocab_size_padded + threads * vec_size - 1) div (threads * vec_size)
             in batchApplyTemperaturePenalty_v2 vec_size blocks_per_tok batch_size threads
                  MAX_T_VAL logits bias temperatures batch_size vocab_size
                  vocab_size_padded))
      in if vocab_size_padded mod 4 = 0 then invoke 4
         else if vocab_size_padded mod 2 = 0 then invoke 2
         else invoke 1)"

subsection \<open>Repetition penalty\<close>

text \<open>
  Accesses at an index that comes from the data are checked against the buffer: an
  index outside it is undefined behaviour in the source and the fault \<open>OutOfBounds\<close>
  here. The address is computed on integers, as the pointer arithmetic of the source is.
\<close>

definition rd :: "'a list \<Rightarrow> int \<Rightarrow> kernel_error + 'a" where
  "rd buf a = (if 0 \<le> a \<and> a < int (length buf) then Inr (buf ! nat a) else Inl OutOfBounds)"

definition wr :: "'a list \<Rightarrow> int \<Rightarrow> 'a \<Rightarrow> kernel_error + 'a list" where
  "wr buf a v = (if 0 \<le> a \<and> a < int (length buf) then Inr (buf[nat a := v]) else Inl OutOfBounds)"

text \<open>
  The enumeration \<^verbatim>\<open>RepetitionPenaltyType\<close>; its value \<^verbatim>\<open>None\<close> is \<open>NoPenalty\<close>
  here. The kernels' last branch, \<^verbatim>\<open>assert(false)\<close> for any other value, has no
  counterpart.
\<close>

datatype RepetitionPenaltyType = Additive | Multiplicative | NoPenalty

fun penalize :: "RepetitionPenaltyType \<Rightarrow> real \<Rightarrow> real \<Rightarrow> real" where
  "penalize Additive penalty logit = logit - penalty"
| "penalize Multiplicative penalty logit =
     (if logit < 0 then logit * penalty else logit / penalty)"
| "penalize NoPenalty penalty logit = logit"

text \<open>
  The scratch arrays \<^verbatim>\<open>penalty_logits\<close> and \<^verbatim>\<open>penalty_indices\<close> of one block,
  each of \<open>step\<close> entries: dynamic shared memory in \<^verbatim>\<open>applyRepetitionPenalty\<close>, a
  slice of \<^verbatim>\<open>penalty_workspace\<close> in \<^verbatim>\<open>batchApplyRepetitionPenalty\<close>. They are
  never initialised, so what a block finds in them is an argument of the kernel.
\<close>

type_synonym scratch = "(nat \<Rightarrow> real) \<times> (nat \<Rightarrow> int)"

text \<open>
  The input length of a row:
  \<^verbatim>\<open>input_lengths != nullptr ? input_lengths[batch_idx] : max_input_length\<close>.
\<close>

definition row_input_length :: "nat list option \<Rightarrow> nat \<Rightarrow> nat \<Rightarrow> nat" where
  "row_input_length input_lengths max_input_length batch_idx =
     (case input_lengths of None \<Rightarrow> max_input_length | Some ls \<Rightarrow> ls ! batch_idx)"

text \<open>The test that skips the padding of the prompt.\<close>

definition padding_position :: "nat \<Rightarrow> nat \<Rightarrow> nat \<Rightarrow> bool" where
  "padding_position input_length max_input_len index =
     (index \<ge> input_length \<and> index < max_input_len)"

text \<open>First loop of \<^verbatim>\<open>applyRepetitionPenalty\<close>, one iteration.\<close>

definition applyRepetitionPenalty_read ::
  "RepetitionPenaltyType \<Rightarrow> real list \<Rightarrow> real \<Rightarrow> int list \<Rightarrow> nat \<Rightarrow> nat \<Rightarrow> nat \<Rightarrow> nat \<Rightarrow> nat
     \<Rightarrow> nat \<Rightarrow> nat \<Rightarrow> kernel_error + scratch \<Rightarrow> kernel_error + scratch" where
  "applyRepetitionPenalty_read penalty_type logits penalty output_ids batch_size blockIdx
       vocab_size vocab_size_padd input_length max_input_len index st =
     (case st of
        Inl e \<Rightarrow> Inl e
      | Inr (penalty_logits, penalty_indices) \<Rightarrow>
          if padding_position input_length max_input_len index then st
          else
            (case rd output_ids (int (index * batch_size + blockIdx)) of
               Inl e \<Rightarrow> Inl e
             | Inr penalty_index \<Rightarrow>
                 if penalty_index \<ge> int vocab_size then st
                 else
                   (case rd logits (int (blockIdx * vocab_size_padd) + penalty_index) of
                      Inl e \<Rightarrow> Inl e
                    | Inr logit \<Rightarrow>
                        Inr (penalty_logits(index := penalize penalty_type penalty logit),
                             penalty_indices(index := penalty_index)))))"

text \<open>Second loop of \<^verbatim>\<open>applyRepetitionPenalty\<close>, one iteration.\<close>

definition applyRepetitionPenalty_write ::
  "scratch \<Rightarrow> nat \<Rightarrow> nat \<Rightarrow> nat \<Rightarrow> nat \<Rightarrow> nat \<Rightarrow> nat
     \<Rightarrow> kernel_error + real list \<Rightarrow> kernel_error + real list" where
  "applyRepetitionPenalty_write sc blockIdx vocab_size vocab_size_padd input_length
       max_input_len index st =
     (case st of
        Inl e \<Rightarrow> Inl e
      | Inr logits \<Rightarrow>
          if padding_position input_length max_input_len index then st
          else if snd sc index \<ge> int vocab_size then st
          else wr logits (int (blockIdx * vocab_size_padd) + snd sc index) (fst sc index))"

text \<open>
  One block of \<^verbatim>\<open>applyRepetitionPenalty\<close>: all threads run the first loop, then
  all threads run the second. The source places \<^verbatim>\<open>__syncthreads\<close> between the
  loops when the block has more than 32 threads; a smaller block is one warp, taken to
  run the loops in order as well.
\<close>

definition applyRepetitionPenalty_block ::
  "RepetitionPenaltyType \<Rightarrow> nat \<Rightarrow> (nat \<Rightarrow> scratch) \<Rightarrow> real \<Rightarrow> int list \<Rightarrow> nat \<Rightarrow> nat \<Rightarrow> nat
     \<Rightarrow> nat list option \<Rightarrow> nat \<Rightarrow> nat \<Rightarrow> nat \<Rightarrow> kernel_error + real list
     \<Rightarrow> kernel_error + real list" where
  "applyRepetitionPenalty_block penalty_type blockDim smem penalty output_ids batch_size
       vocab_size vocab_size_padd input_lengths max_input_len step blockIdx st =
     (case st of
        Inl e \<Rightarrow> Inl e
      | Inr logits \<Rightarrow>
          (let input_length = row_input_length input_lengths max_input_len blockIdx
           in case launch 1 blockDim
                     (\<lambda>_ threadIdx.
                        stride_loop
                          (applyRepetitionPenalty_read penalty_type logits penalty output_ids
                             batch_size blockIdx vocab_size vocab_size_padd input_length
                             max_input_len)
                          blockDim step threadIdx)
                     (Inr (smem blockIdx)) of
                Inl e \<Rightarrow> Inl e
              | Inr sc \<Rightarrow>
                  launch 1 blockDim
                    (\<lambda>_ threadIdx.
                       stride_loop
                         (applyRepetitionPenalty_write sc blockIdx vocab_size vocab_size_padd
                            input_length max_input_len)
                         blockDim step threadIdx)
                    (Inr logits)))"

definition applyRepetitionPenalty ::
  "RepetitionPenaltyType \<Rightarrow> nat \<Rightarrow> nat \<Rightarrow> (nat \<Rightarrow> scratch) \<Rightarrow> real list \<Rightarrow> real \<Rightarrow> int list
     \<Rightarrow> nat \<Rightarrow> nat \<Rightarrow> nat \<Rightarrow> nat list option \<Rightarrow> nat \<Rightarrow> nat \<Rightarrow> kernel_error + real list" where
  "applyRepetitionPenalty penalty_type gridDim blockDim smem logits penalty output_ids
       batch_size vocab_size vocab_size_padd input_lengths max_input_len step =
     fold
       (applyRepetitionPenalty_block penalty_type blockDim smem penalty output_ids batch_size
          vocab_size vocab_size_padd input_lengths max_input_len step)
       [0..<gridDim] (Inr logits)"

definition invokeApplyRepetitionPenalty ::
  "(nat \<Rightarrow> scratch) \<Rightarrow> real list \<Rightarrow> real \<Rightarrow> int list \<Rightarrow> nat \<Rightarrow> nat \<Rightarrow> nat \<Rightarrow> nat
     \<Rightarrow> nat list option \<Rightarrow> nat \<Rightarrow> nat \<Rightarrow> RepetitionPenaltyType \<Rightarrow> kernel_error + real list" where
  "invokeApplyRepetitionPenalty smem logits penalty output_ids batch_size local_batch_size
       vocab_size vocab_size_padd input_lengths max_input_len step penalty_type =
     (let block = min step 1024;
          grid = local_batch_size
      in case penalty_type of
           Additive \<Rightarrow>
             applyRepetitionPenalty Additive grid block smem logits penalty output_ids
               batch_size vocab_size vocab_size_padd input_lengths max_input_len step
         | Multiplicative \<Rightarrow>
             applyRepetitionPenalty Multiplicative grid block smem logits penalty output_ids
               batch_size vocab_size vocab_size_padd input_lengths max_input_len step
         | NoPenalty \<Rightarrow> Inr logits)"

text \<open>
  First loop of \<^verbatim>\<open>batchApplyRepetitionPenalty\<close>, one iteration. The rows of its
  logits are \<open>vocab_size\<close> apart. The \<^verbatim>\<open>assert\<close> of the source is taken as
  compiled in (\<^verbatim>\<open>NDEBUG\<close> not defined): a false condition ends the kernel with
  \<open>AssertionFailed\<close>.
\<close>

definition batchApplyRepetitionPenalty_read ::
  "RepetitionPenaltyType \<Rightarrow> real list \<Rightarrow> real \<Rightarrow> int list \<Rightarrow> nat \<Rightarrow> nat \<Rightarrow> nat \<Rightarrow> nat
     \<Rightarrow> nat \<Rightarrow> nat \<Rightarrow> kernel_error + scratch \<Rightarrow> kernel_error + scratch" where
  "batchApplyRepetitionPenalty_read penalty_type logits penalty output_ids batch_size batch_idx
       vocab_size input_length max_input_length index st =
     (case st of
        Inl e \<Rightarrow> Inl e
      | Inr (penalty_logits, penalty_indices) \<Rightarrow>
          if padding_position input_length max_input_length index then st
          else
            (case rd output_ids (int (index * batch_size + batch_idx)) of
               Inl e \<Rightarrow> Inl e
             | Inr penalty_index \<Rightarrow>
                 if \<not> penalty_index < int vocab_size then Inl AssertionFailed
                 else
                   (case rd logits (int (batch_idx * vocab_size) + penalty_index) of
                      Inl e \<Rightarrow> Inl e
                    | Inr logit \<Rightarrow>
                        Inr (penalty_logits(index := penalize penalty_type penalty logit),
                             penalty_indices(index := penalty_index)))))"

text \<open>Second loop of \<^verbatim>\<open>batchApplyRepetitionPenalty\<close>, one iteration.\<close>

definition batchApplyRepetitionPenalty_write ::
  "scratch \<Rightarrow> nat \<Rightarrow> nat \<Rightarrow> nat \<Rightarrow> nat \<Rightarrow> nat
     \<Rightarrow> kernel_error + real list \<Rightarrow> kernel_error + real list" where
  "batchApplyRepetitionPenalty_write sc batch_idx vocab_size input_length max_input_length
       index st =
     (case st of
        Inl e \<Rightarrow> Inl e
      | Inr logits \<Rightarrow>
          if padding_position input_length max_input_length index then st
          else wr logits (int (batch_idx * vocab_size) + snd sc index) (fst sc index))"

definition batchApplyRepetitionPenalty_block ::
  "RepetitionPenaltyType \<Rightarrow> nat \<Rightarrow> real list \<Rightarrow> (nat \<Rightarrow> scratch) \<Rightarrow> int list \<Rightarrow> nat \<Rightarrow> nat
     \<Rightarrow> nat list option \<Rightarrow> nat \<Rightarrow> nat \<Rightarrow> nat \<Rightarrow> kernel_error + real list
     \<Rightarrow> kernel_error + real list" where
  "batchApplyRepetitionPenalty_block penalty_type blockDim penalties penalty_workspace
       output_ids batch_size vocab_size input_lengths max_input_length step batch_idx st =
     (case st of
        Inl e \<Rightarrow> Inl e
      | Inr logits \<Rightarrow>
          (let penalty = penalties ! batch_idx;
               input_length = row_input_length input_lengths max_input_length batch_idx
           in case launch 1 blockDim
                     (\<lambda>_ threadIdx.
                        stride_loop
                          (batchApplyRepetitionPenalty_read penalty_type logits penalty
                             output_ids batch_size batch_idx vocab_size input_length
                             max_input_length)
                          blockDim step threadIdx)
                     (Inr (penalty_workspace batch_idx)) of
                Inl e \<Rightarrow> Inl e
              | Inr sc \<Rightarrow>
                  launch 1 blockDim
                    (\<lambda>_ threadIdx.
                       stride_loop
                         (batchApplyRepetitionPenalty_write sc batch_idx vocab_size
                            input_length max_input_length)
                         blockDim step threadIdx)
                    (Inr logits)))"

definition batchApplyRepetitionPenalty ::
  "RepetitionPenaltyType \<Rightarrow> nat \<Rightarrow> nat \<Rightarrow> real list \<Rightarrow> real list \<Rightarrow> (nat \<Rightarrow> scratch)
     \<Rightarrow> int list \<Rightarrow> nat \<Rightarrow> nat \<Rightarrow> nat list option \<Rightarrow> nat \<Rightarrow> nat \<Rightarrow> kernel_error + real list" where
  "batchApplyRepetitionPenalty penalty_type gridDim blockDim logits penalties
       penalty_workspace output_ids batch_size vocab_size input_lengths max_input_length step =
     fold
       (batchApplyRepetitionPenalty_block penalty_type blockDim penalties penalty_workspace
          output_ids batch_size vocab_size input_lengths max_input_length step)
       [0..<gridDim] (Inr logits)"

definition invokeBatchApplyRepetitionPenalty ::
  "real list \<Rightarrow> real list \<Rightarrow> (nat \<Rightarrow> scratch) \<Rightarrow> int list \<Rightarrow> nat \<Rightarrow> nat \<Rightarrow> nat
     \<Rightarrow> nat list option \<Rightarrow> nat \<Rightarrow> nat \<Rightarrow> RepetitionPenaltyType \<Rightarrow> kernel_error + real list" where
  "invokeBatchApplyRepetitionPenalty logits penalties penalty_workspace output_ids batch_size
       local_batch_size vocab_size input_lengths max_input_length step penalty_type =
     (let block = min step 1024;
          grid = local_batch_size
      in case penalty_type of
           Additive \<Rightarrow>
             batchApplyRepetitionPenalty Additive grid block logits penalties
               penalty_workspace output_ids batch_size vocab_size input_lengths
               max_input_length step
         | Multiplicative \<Rightarrow>
             batchApplyRepetitionPenalty Multiplicative grid block logits penalties
               penalty_workspace output_ids batch_size vocab_size input_lengths
               max_input_length step
         | NoPenalty \<Rightarrow> Inr logits)"

subsection \<open>Minimum length penalty\<close>

text \<open>One thread of \<^verbatim>\<open>batchApplyMinLengthPenalty\<close>.\<close>

definition batchApplyMinLengthPenalty_thread ::
  "real \<Rightarrow> int list \<Rightarrow> int list \<Rightarrow> nat \<Rightarrow> nat \<Rightarrow> int list \<Rightarrow> nat \<Rightarrow> nat \<Rightarrow> nat \<Rightarrow> nat
     \<Rightarrow> kernel_error + real list \<Rightarrow> kernel_error + real list" where
  "batchApplyMinLengthPenalty_thread MAX_T_VAL min_lengths sequence_lengths vocab_size_padded
       batch_size end_ids end_ids_size blockDim blockIdx threadIdx st =
     (case st of
        Inl e \<Rightarrow> Inl e
      | Inr logits \<Rightarrow>
          if end_ids_size = 0 then Inl DivisionByZero
          else
            (let tid = threadIdx + blockIdx * blockDim;
                 bid = tid div end_ids_size;
                 eid = tid mod end_ids_size
             in if bid < batch_size
                then (let end_id = end_ids ! (bid * end_ids_size + eid)
                      in if end_id > 0 \<and> sequence_lengths ! bid + 1 < min_lengths ! bid
                         then (let mask_val = - MAX_T_VAL
                               in wr logits (int (bid * vocab_size_padded) + end_id) mask_val)
                         else st)
                else st))"

definition batchApplyMinLengthPenalty ::
  "nat \<Rightarrow> nat \<Rightarrow> real \<Rightarrow> real list \<Rightarrow> int list \<Rightarrow> int list \<Rightarrow> nat \<Rightarrow> nat \<Rightarrow> int list \<Rightarrow> nat
     \<Rightarrow> kernel_error + real list" where
  "batchApplyMinLengthPenalty gridDim blockDim MAX_T_VAL logits min_lengths sequence_lengths
       vocab_size_padded batch_size end_ids end_ids_size =
     launch gridDim blockDim
       (batchApplyMinLengthPenalty_thread MAX_T_VAL min_lengths sequence_lengths
          vocab_size_padded batch_size end_ids end_ids_size blockDim)
       (Inr logits)"

text \<open>
  The host function passes \<^verbatim>\<open><<<block, grid>>>\<close>: its \<open>block\<close> is the grid of the
  launch and its \<open>grid\<close> the block.
\<close>

definition invokeMinLengthPenalty ::
  "real \<Rightarrow> real list \<Rightarrow> int list \<Rightarrow> int list \<Rightarrow> nat \<Rightarrow> nat \<Rightarrow> int list \<Rightarrow> nat
     \<Rightarrow> kernel_error + real list" where
  "invokeMinLengthPenalty MAX_T_VAL logits min_lengths sequnece_lengths vocab_size_padded
       batch_size end_ids end_ids_size =
     (let block = min (batch_size * end_ids_size) 1024
      in if block = 0 then Inl DivisionByZero
         else
           (let grid = (batch_size * end_ids_size + block - 1) div block
            in batchApplyMinLengthPenalty block grid MAX_T_VAL logits min_lengths
                 sequnece_lengths vocab_size_padded batch_size end_ids end_ids_size))"

text \<open>
  The condition under which the thread with global index \<open>t\<close> stores the mask value:
  its row exists, its end id is positive and the next position is below the minimum.
\<close>

definition min_length_masks ::
  "int list \<Rightarrow> int list \<Rightarrow> nat \<Rightarrow> int list \<Rightarrow> nat \<Rightarrow> nat \<Rightarrow> bool" where
  "min_length_masks min_lengths sequence_lengths batch_size end_ids eis t =
     (t div eis < batch_size \<and> end_ids ! t > 0 \<and>
      sequence_lengths ! (t div eis) + 1 < min_lengths ! (t div eis))"

subsection \<open>Indexed copy of the batch state\<close>

text \<open>
  \<^verbatim>\<open>LlamaBatch::IndexedCopy\<close> copies the slots of several buffers at once. A buffer is
  named by its pointer (a value of type \<open>'p\<close>); the device memory maps a pointer to the
  list of the slots of its buffer, a slot being one value (its elements). A copy
  descriptor is the triple \<^verbatim>\<open>(src, dst, count)\<close> of the source. Slot indices are natural
  numbers.
\<close>

type_synonym ('p, 'a) memory = "'p \<Rightarrow> 'a list"

type_synonym 'p copy = "'p \<times> 'p \<times> nat"

datatype host_error = FT_CHECK_failed

text \<open>The slot a null or given index list names at position \<open>k\<close>.\<close>

definition slot_index :: "nat list option \<Rightarrow> nat \<Rightarrow> nat" where
  "slot_index idx k = (case idx of None \<Rightarrow> k | Some xs \<Rightarrow> xs ! k)"

text \<open>
  Modelled from the spec: the kernel launcher \<^verbatim>\<open>invokeIndexedCopy\<close>, called by
  \<^verbatim>\<open>IndexedCopyImpl\<close> and defined outside the sources at hand. The spec: ``given a
  list of source slot indices and a list of destination slot indices (same length, or
  one side empty meaning identity), copy each of N named per-slot buffers of element
  size \<open>sz_i\<close> from \<open>src[k]\<close> to \<open>dst[k]\<close> for all \<open>k\<close>''. The element size of a
  buffer is received; a slot is copied as a whole.
\<close>

definition copy_slot :: "'p \<Rightarrow> 'p \<Rightarrow> nat \<Rightarrow> nat \<Rightarrow> ('p, 'a) memory \<Rightarrow> ('p, 'a) memory" where
  "copy_slot src dst si di mem = mem(dst := (mem dst)[di := mem src ! si])"

definition invokeIndexedCopy ::
  "'p list \<Rightarrow> 'p list \<Rightarrow> nat list \<Rightarrow> nat list option \<Rightarrow> nat list option \<Rightarrow> nat \<Rightarrow> nat
     \<Rightarrow> ('p, 'a) memory \<Rightarrow> ('p, 'a) memory" where
  "invokeIndexedCopy src_ptr dst_ptr elem_sz src_idx dst_idx count n mem =
     fold
       (\<lambda>i. fold
          (\<lambda>k. copy_slot (src_ptr ! i) (dst_ptr ! i) (slot_index src_idx k) (slot_index dst_idx k))
          [0..<count])
       [0..<n] mem"

definition IndexedCopyImpl ::
  "nat list option \<Rightarrow> nat list option \<Rightarrow> nat \<Rightarrow> 'p copy list \<Rightarrow> ('p, 'a) memory
     \<Rightarrow> ('p, 'a) memory" where
  "IndexedCopyImpl src_idx dst_idx count cpys mem =
     (if count = 0 then mem
      else
        (let N = length cpys;
             src_ptr = map fst cpys;
             dst_ptr = map (\<lambda>c. fst (snd c)) cpys;
             elem_sz = map (\<lambda>c. snd (snd c)) cpys
         in invokeIndexedCopy src_ptr dst_ptr elem_sz src_idx dst_idx count N mem))"

definition IndexedCopy ::
  "nat list \<Rightarrow> nat list \<Rightarrow> 'p copy list \<Rightarrow> ('p, 'a) memory \<Rightarrow> host_error + ('p, 'a) memory" where
  "IndexedCopy src_idx dst_idx cpys mem =
     (if \<not> (length src_idx = length dst_idx \<or> ((src_idx = []) \<noteq> (dst_idx = [])))
      then Inl FT_CHECK_failed
      else Inr (IndexedCopyImpl (if src_idx = [] then None else Some src_idx)
                  (if dst_idx = [] then None else Some dst_idx)
                  (max (length src_idx) (length dst_idx)) cpys mem))"

text \<open>
  The slots an index list of a call names: the list itself, or, when it is empty, the
  identity \<open>0, ..., count - 1\<close>.
\<close>

definition named_slots :: "nat list \<Rightarrow> nat \<Rightarrow> nat list" where
  "named_slots idx count = (if idx = [] then [0..<count] else idx)"

section \<open>Properties of the launch geometry\<close>

lemma stride_loop_fold:
  "stride_loop body stride bound index s = fold body (stride_indices stride bound index) s"
proof (induction body stride bound index s rule: stride_loop.induct)
  case (1 body stride bound index s)
  show ?case
  proof (cases "stride = 0 \<or> bound \<le> index")
    case True
    then show ?thesis
      by (simp add: stride_loop.simps [of body stride bound index]
          stride_indices.simps [of stride bound index])
  next
    case False
    with "1" show ?thesis
      by (simp add: stride_loop.simps [of body stride bound index]
          stride_indices.simps [of stride bound index])
  qed
qed

lemma set_stride_indices:
  "0 < stride \<Longrightarrow>
   set (stride_indices stride bound index) =
     {j. index \<le> j \<and> j < bound \<and> (\<exists>k. j = index + k * stride)}"
proof (induction stride bound index rule: stride_indices.induct)
  case (1 stride bound index)
  show ?case
  proof (cases "bound \<le> index")
    case True
    with "1.prems" show ?thesis
      by (auto simp: stride_indices.simps [of stride bound index])
  next
    case False
    with "1.prems" have ih:
      "set (stride_indices stride bound (index + stride)) =
         {j. index + stride \<le> j \<and> j < bound \<and> (\<exists>k. j = index + stride + k * stride)}"
      using "1.IH" by simp
    have "{j. index \<le> j \<and> j < bound \<and> (\<exists>k. j = index + k * stride)} =
          insert index {j. index + stride \<le> j \<and> j < bound \<and> (\<exists>k. j = index + stride + k * stride)}"
    proof (intro set_eqI iffI)
      fix j
      assume "j \<in> {j. index \<le> j \<and> j < bound \<and> (\<exists>k. j = index + k * stride)}"
      then obtain k where k: "j = index + k * stride" "j < bound" by auto
      show "j \<in> insert index {j. index + stride \<le> j \<and> j < bound \<and> (\<exists>k. j = index + stride + k * stride)}"
      proof (cases k)
        case 0
        with k show ?thesis by simp
      next
        case (Suc k')
        with k show ?thesis by auto
      qed
    next
      fix j
      assume "j \<in> insert index {j. index + stride \<le> j \<and> j < bound \<and> (\<exists>k. j = index + stride + k * stride)}"
      then consider "j = index" | k where "j = index + stride + k * stride" "j < bound"
        by auto
      then show "j \<in> {j. index \<le> j \<and> j < bound \<and> (\<exists>k. j = index + k * stride)}"
      proof cases
        case 1
        with False show ?thesis by (auto intro: exI [of _ 0])
      next
        case 2
        then have "index \<le> j" by simp
        moreover from 2 have "\<exists>k'. j = index + k' * stride"
          by (intro exI [of _ "Suc k"]) simp
        ultimately show ?thesis using 2 by simp
      qed
    qed
    with ih False "1.prems" show ?thesis
      by (simp add: stride_indices.simps [of stride bound index])
  qed
qed

lemma distinct_stride_indices:
  "0 < stride \<Longrightarrow> distinct (stride_indices stride bound index)"
proof (induction stride bound index rule: stride_indices.induct)
  case (1 stride bound index)
  show ?case
  proof (cases "bound \<le> index")
    case True
    then show ?thesis
      by (simp add: stride_indices.simps [of stride bound index])
  next
    case False
    with "1" have "distinct (stride_indices stride bound (index + stride))" by simp
    moreover have "index \<notin> set (stride_indices stride bound (index + stride))"
      using "1.prems" by (simp add: set_stride_indices)
    ultimately show ?thesis
      using False "1.prems" by (simp add: stride_indices.simps [of stride bound index])
  qed
qed

lemma set_stride_indices_mod:
  assumes "t < n"
  shows "set (stride_indices n bound t) = {j. j < bound \<and> j mod n = t}"
proof -
  from assms have n: "0 < n" by simp
  have "{j. t \<le> j \<and> j < bound \<and> (\<exists>k. j = t + k * n)} = {j. j < bound \<and> j mod n = t}"
  proof (intro set_eqI iffI)
    fix j
    assume "j \<in> {j. t \<le> j \<and> j < bound \<and> (\<exists>k. j = t + k * n)}"
    then obtain k where "j = t + k * n" "j < bound" by auto
    with assms show "j \<in> {j. j < bound \<and> j mod n = t}" by simp
  next
    fix j
    assume "j \<in> {j. j < bound \<and> j mod n = t}"
    then have j: "j < bound" "j mod n = t" by auto
    have "j = t + (j div n) * n"
      using j(2) div_mult_mod_eq [of j n] by simp
    moreover from this have "t \<le> j" by simp
    ultimately show "j \<in> {j. t \<le> j \<and> j < bound \<and> (\<exists>k. j = t + k * n)}"
      using j(1) by blast
  qed
  with n show ?thesis by (simp add: set_stride_indices)
qed

lemma schedule_prefix:
  "m \<le> n \<Longrightarrow>
   set (concat (map (stride_indices n bound) [0..<m])) = {j. j < bound \<and> j mod n < m} \<and>
   distinct (concat (map (stride_indices n bound) [0..<m]))"
proof (induction m)
  case 0
  then show ?case by simp
next
  case (Suc m)
  then have m: "m < n" and ih:
    "set (concat (map (stride_indices n bound) [0..<m])) = {j. j < bound \<and> j mod n < m}"
    "distinct (concat (map (stride_indices n bound) [0..<m]))"
    by simp_all
  have s: "set (stride_indices n bound m) = {j. j < bound \<and> j mod n = m}"
    using m by (rule set_stride_indices_mod)
  have d: "distinct (stride_indices n bound m)"
    using m by (simp add: distinct_stride_indices)
  have "{j. j < bound \<and> j mod n < Suc m} = {j. j < bound \<and> j mod n < m} \<union> {j. j < bound \<and> j mod n = m}"
    by auto
  with ih s d show ?case by auto
qed

lemma fold_concat_fold: "fold f (concat xss) s = fold (\<lambda>xs. fold f xs) xss s"
  by (induction xss arbitrary: s) simp_all

lemma set_schedule: "0 < n \<Longrightarrow> set (schedule n bound) = {j. j < bound}"
  using schedule_prefix [of n n bound] by (simp add: schedule_def)

lemma distinct_schedule: "distinct (schedule n bound)"
  using schedule_prefix [of n n bound] by (simp add: schedule_def)

text \<open>
  A grid-stride launch whose loop body may depend on the block of the thread runs the
  body once on every index below the bound, in the order of the schedule.
\<close>

lemma launch_stride_loop:
  assumes "n = gridDim * blockDim"
  shows "launch gridDim blockDim
           (\<lambda>blockIdx threadIdx.
              stride_loop (body blockIdx) n bound (blockIdx * blockDim + threadIdx)) s =
         fold (\<lambda>index. body (index mod n div blockDim) index) (schedule n bound) s"
proof -
  have thread: "stride_loop (body (tid div blockDim)) n bound tid s' =
      fold (fold (\<lambda>index. body (index mod n div blockDim) index))
        [stride_indices n bound tid] s'"
    if "tid \<in> set [0..<n]" for tid s'
  proof -
    from that have t: "tid < n" by simp
    have "fold (body (tid div blockDim)) (stride_indices n bound tid) s' =
          fold (\<lambda>index. body (index mod n div blockDim) index) (stride_indices n bound tid) s'"
      by (rule fold_cong) (use t in \<open>auto simp: set_stride_indices_mod\<close>)
    then show ?thesis by (simp add: stride_loop_fold)
  qed
  have "launch gridDim blockDim
           (\<lambda>blockIdx threadIdx.
              stride_loop (body blockIdx) n bound (blockIdx * blockDim + threadIdx)) s =
        fold (\<lambda>tid. stride_loop (body (tid div blockDim)) n bound tid) [0..<n] s"
    by (simp add: launch_def assms)
  also have "\<dots> = fold (\<lambda>tid. fold (\<lambda>index. body (index mod n div blockDim) index)
                       (stride_indices n bound tid)) [0..<n] s"
    by (rule fold_cong) (use thread in auto)
  also have "\<dots> = fold (\<lambda>index. body (index mod n div blockDim) index) (schedule n bound) s"
    by (simp add: schedule_def fold_concat_fold fold_map comp_def)
  finally show ?thesis .
qed

section \<open>Element-wise kernels\<close>

text \<open>
  When every work item rewrites its own cells, each from the cell's old value alone, and
  no two items share a cell, the result of running the items is known cell by cell.
\<close>

lemma fold_cells:
  assumes "distinct xs"
    and disj: "\<And>i j. i \<in> set xs \<Longrightarrow> j \<in> set xs \<Longrightarrow> i \<noteq> j \<Longrightarrow> cells i \<inter> cells j = {}"
    and len: "\<And>i buf. i \<in> set xs \<Longrightarrow> length buf = N \<Longrightarrow> length (body i buf) = length buf"
    and nth: "\<And>i buf c. i \<in> set xs \<Longrightarrow> length buf = N \<Longrightarrow> c < N \<Longrightarrow>
           body i buf ! c = (if c \<in> cells i then h c (buf ! c) else buf ! c)"
    and "length buf = N" and "c < N"
  shows "fold body xs buf ! c = (if \<exists>i\<in>set xs. c \<in> cells i then h c (buf ! c) else buf ! c)"
  using assms
proof (induction xs arbitrary: buf)
  case Nil
  then show ?case by simp
next
  case (Cons x xs)
  have lx: "length (body x buf) = N"
    using Cons.prems(3) [of x buf] Cons.prems(5) by simp
  have ih: "fold body xs (body x buf) ! c =
      (if \<exists>i\<in>set xs. c \<in> cells i then h c (body x buf ! c) else body x buf ! c)"
  proof (rule Cons.IH)
    show "distinct xs" using Cons.prems(1) by simp
    show "length (body x buf) = N" by (rule lx)
    show "c < N" by (rule Cons.prems(6))
  qed (use Cons.prems in auto)
  have bx: "body x buf ! c = (if c \<in> cells x then h c (buf ! c) else buf ! c)"
    using Cons.prems(4) [of x buf c] Cons.prems(5,6) by simp
  have excl: "\<not> (\<exists>i\<in>set xs. c \<in> cells i)" if "c \<in> cells x"
  proof
    assume "\<exists>i\<in>set xs. c \<in> cells i"
    then obtain i where i: "i \<in> set xs" "c \<in> cells i" by auto
    with Cons.prems(1) have "i \<noteq> x" by auto
    with Cons.prems(2) [of i x] i have "cells i \<inter> cells x = {}" by simp
    with i that show False by auto
  qed
  show ?case
    using ih bx excl by auto
qed

lemma fold_length:
  "(\<And>i buf. i \<in> set xs \<Longrightarrow> length (body i buf) = length buf) \<Longrightarrow>
   length (fold body xs buf) = length buf"
  by (induction xs arbitrary: buf) simp_all

lemma applyTemperaturePenalty_body_nth:
  assumes "index < length logits" "c < length logits"
  shows "applyTemperaturePenalty_body MAX_T_VAL bias tinv vocab_size vsp index logits ! c =
     (if c \<in> {index}
      then (if c mod vsp < vocab_size
            then (logits ! c + (case bias of None \<Rightarrow> 0 | Some b \<Rightarrow> b ! (c mod vsp))) * tinv
            else - MAX_T_VAL)
      else logits ! c)"
  using assms by (auto simp: applyTemperaturePenalty_body_def Let_def)

lemma applyTemperaturePenalty_nth:
  assumes "0 < gridDim" "0 < blockDim" "length logits = m * vsp" "c < m * vsp"
  shows "applyTemperaturePenalty gridDim blockDim MAX_T_VAL logits bias tinv m vocab_size vsp ! c =
     (if c mod vsp < vocab_size
      then (logits ! c + (case bias of None \<Rightarrow> 0 | Some b \<Rightarrow> b ! (c mod vsp))) * tinv
      else - MAX_T_VAL)"
proof -
  let ?n = "gridDim * blockDim"
  let ?body = "applyTemperaturePenalty_body MAX_T_VAL bias tinv vocab_size vsp"
  let ?h = "\<lambda>c x. if c mod vsp < vocab_size
      then (x + (case bias of None \<Rightarrow> 0 | Some b \<Rightarrow> b ! (c mod vsp))) * tinv
      else - MAX_T_VAL"
  have n: "0 < ?n" using assms by simp
  have run: "applyTemperaturePenalty gridDim blockDim MAX_T_VAL logits bias tinv m vocab_size vsp =
      fold ?body (schedule ?n (m * vsp)) logits"
    unfolding applyTemperaturePenalty_def mult.commute [of blockDim gridDim]
    by (rule launch_stride_loop) simp
  have "fold ?body (schedule ?n (m * vsp)) logits ! c =
      (if \<exists>i\<in>set (schedule ?n (m * vsp)). c \<in> {i} then ?h c (logits ! c) else logits ! c)"
  proof (rule fold_cells [where N = "m * vsp"])
    show "distinct (schedule ?n (m * vsp))" by (rule distinct_schedule)
    show "length (?body i buf) = length buf" for i buf
      by (simp add: applyTemperaturePenalty_body_def Let_def)
    show "?body i buf ! c = (if c \<in> {i} then ?h c (buf ! c) else buf ! c)"
      if "i \<in> set (schedule ?n (m * vsp))" "length buf = m * vsp" "c < m * vsp" for i buf c
      using that n applyTemperaturePenalty_body_nth [of i buf c]
      by (simp add: set_schedule)
  qed (use assms in auto)
  with run n assms(4) show ?thesis by (simp add: set_schedule)
qed


section \<open>Temperature penalty, scalar path\<close>

text \<open>
  Claim C1. On the scalar path of \<^verbatim>\<open>invokeApplyTemperaturePenalty\<close> (the element
  type is not \<^verbatim>\<open>half\<close>, or a vocabulary size is odd), for every logits buffer of
  \<open>batch_size\<close> rows of \<open>vocab_size_padd\<close> columns, every optional bias and every
  temperature above zero, the launch completes, and in every row the column \<open>v\<close> holds
  \<open>(L[v] + B[v]) / (temperature + 1e-6)\<close> when \<open>v < vocab_size\<close> (the bias counting
  as zero when absent) and \<open>- MAX_T_VAL\<close> when \<open>v\<close> is a padding column.
\<close>

theorem temperature_scalar_path:
  assumes "0 < temperature"
    and "length logits = batch_size * vocab_size_padd"
    and "\<not> (is_half \<and> vocab_size mod 2 = 0 \<and> vocab_size_padd mod 2 = 0)"
    and "row < batch_size" and "v < vocab_size_padd"
  shows "\<exists>out. invokeApplyTemperaturePenalty is_half MAX_T_VAL logits bias temperature
             batch_size vocab_size vocab_size_padd = Inr out \<and>
           length out = length logits \<and>
           out ! (row * vocab_size_padd + v) =
             (if v < vocab_size
              then (logits ! (row * vocab_size_padd + v) +
                      (case bias of None \<Rightarrow> 0 | Some B \<Rightarrow> B ! v)) /
                   (temperature + 1 / 1000000)
              else - MAX_T_VAL)"
proof -
  let ?block = "min vocab_size_padd 1024"
  let ?grid = "min (batch_size * vocab_size_padd div ?block) 65536"
  let ?tinv = "1 / (temperature + eps)"
  let ?out = "applyTemperaturePenalty ?grid ?block MAX_T_VAL logits bias ?tinv batch_size
      vocab_size vocab_size_padd"
  let ?c = "row * vocab_size_padd + v"
  have block: "0 < ?block" using assms(5) by simp
  have "row * vocab_size_padd + vocab_size_padd \<le> batch_size * vocab_size_padd"
    using assms(4) by (metis Suc_leI mult_Suc mult_le_mono1 add.commute)
  then have c: "?c < batch_size * vocab_size_padd"
    using assms(5) by simp
  have "1 \<le> batch_size" using assms(4) by simp
  then have "vocab_size_padd \<le> batch_size * vocab_size_padd" by simp
  then have "?block \<le> batch_size * vocab_size_padd"
    by (rule order_trans [OF min.cobounded1])
  then have "1 \<le> batch_size * vocab_size_padd div ?block"
    using block by (metis div_greater_zero_iff Suc_leI One_nat_def)
  then have grid: "0 < ?grid" by simp
  have run: "invokeApplyTemperaturePenalty is_half MAX_T_VAL logits bias temperature
      batch_size vocab_size vocab_size_padd = Inr ?out"
    using block assms(3) by (auto simp: invokeApplyTemperaturePenalty_def Let_def)
  have len: "length ?out = length logits"
    unfolding applyTemperaturePenalty_def mult.commute [of ?block ?grid]
    by (subst launch_stride_loop [OF refl])
      (simp add: fold_length applyTemperaturePenalty_body_def Let_def)
  have m: "?c mod vocab_size_padd = v"
    using assms(5) by simp
  have "?out ! ?c =
      (if v < vocab_size
       then (logits ! ?c + (case bias of None \<Rightarrow> 0 | Some B \<Rightarrow> B ! v)) * ?tinv
       else - MAX_T_VAL)"
    using applyTemperaturePenalty_nth [OF grid block assms(2) c, of MAX_T_VAL bias ?tinv vocab_size]
    by (simp only: m)
  then have "?out ! ?c =
      (if v < vocab_size
       then (logits ! ?c + (case bias of None \<Rightarrow> 0 | Some B \<Rightarrow> B ! v)) /
              (temperature + 1 / 1000000)
       else - MAX_T_VAL)"
    by (simp add: eps_def)
  with run len show ?thesis by blast
qed

text \<open>The theorem at one row of four columns, three of them vocabulary, with a bias.\<close>

theorem temperature_scalar_path_witness:
  "\<exists>out. invokeApplyTemperaturePenalty False 100 [1, 2, 3, 4] (Some [1, 1, 1, 1]) 1 1 3 4 = Inr out \<and>
         out ! 1 = 3 / (1 + 1 / 1000000)"
  using temperature_scalar_path [of 1 "[1, 2, 3, 4]" 1 4 False 3 0 1 100 "Some [1, 1, 1, 1]"]
  by auto

section \<open>Temperature penalty, version 2\<close>

text \<open>
  Claim C10. The output of the version-2 batched temperature kernel does not depend on
  its bias argument: two runs on the same logits, temperatures and sizes, one with any
  bias buffer or none and the other with any other, end with the same logits buffer.
\<close>

theorem temperature_v2_ignores_bias:
  "invokeBatchApplyTemperaturePenalty_v2 MAX_T_VAL logits bias temperatures batch_size
     vocab_size vocab_size_padded =
   invokeBatchApplyTemperaturePenalty_v2 MAX_T_VAL logits bias' temperatures batch_size
     vocab_size vocab_size_padded"
  by (simp add: invokeBatchApplyTemperaturePenalty_v2_def batchApplyTemperaturePenalty_v2_def)

section \<open>Data-dependent stores\<close>

text \<open>
  Work items that each store, or not, a value determined by the address stored to.
\<close>

lemma fold_writes:
  assumes "\<And>x l. x \<in> set xs \<Longrightarrow> length l = n \<Longrightarrow>
             f x (Inr l) = (if active x then wr l (a x) (val (a x)) else Inr l)"
    and "\<And>x. x \<in> set xs \<Longrightarrow> active x \<Longrightarrow> 0 \<le> a x \<and> a x < int n"
    and "length l = n"
  shows "\<exists>l'. fold f xs (Inr l) = Inr l' \<and> length l' = n \<and>
           (\<forall>c<n. l' ! c = (if \<exists>x\<in>set xs. active x \<and> a x = int c then val (int c) else l ! c))"
  using assms
proof (induction xs arbitrary: l)
  case Nil
  then show ?case by simp
next
  case (Cons x xs)
  show ?case
  proof (cases "active x")
    case False
    then have fx: "f x (Inr l) = Inr l"
      using Cons.prems(1) [of x l] Cons.prems(3) by simp
    have "\<exists>l'. fold f xs (Inr l) = Inr l' \<and> length l' = n \<and>
           (\<forall>c<n. l' ! c = (if \<exists>x\<in>set xs. active x \<and> a x = int c then val (int c) else l ! c))"
    proof (rule Cons.IH)
      show "f y (Inr l0) = (if active y then wr l0 (a y) (val (a y)) else Inr l0)"
        if "y \<in> set xs" "length l0 = n" for y l0
        using Cons.prems(1) [of y l0] that by simp
      show "0 \<le> a y \<and> a y < int n" if "y \<in> set xs" "active y" for y
        using Cons.prems(2) [of y] that by simp
      show "length l = n" by (rule Cons.prems(3))
    qed
    with fx False show ?thesis by auto
  next
    case True
    then have rng: "0 \<le> a x" "a x < int n"
      using Cons.prems(2) [of x] by simp_all
    define l1 where "l1 = l[nat (a x) := val (a x)]"
    have fx: "f x (Inr l) = Inr l1"
      using Cons.prems(1) [of x l] Cons.prems(3) True rng by (simp add: wr_def l1_def)
    have len1: "length l1 = n" using Cons.prems(3) by (simp add: l1_def)
    have "\<exists>l'. fold f xs (Inr l1) = Inr l' \<and> length l' = n \<and>
           (\<forall>c<n. l' ! c = (if \<exists>x\<in>set xs. active x \<and> a x = int c then val (int c) else l1 ! c))"
    proof (rule Cons.IH)
      show "f y (Inr l0) = (if active y then wr l0 (a y) (val (a y)) else Inr l0)"
        if "y \<in> set xs" "length l0 = n" for y l0
        using Cons.prems(1) [of y l0] that by simp
      show "0 \<le> a y \<and> a y < int n" if "y \<in> set xs" "active y" for y
        using Cons.prems(2) [of y] that by simp
      show "length l1 = n" by (rule len1)
    qed
    then obtain l' where l': "fold f xs (Inr l1) = Inr l'" "length l' = n"
      "\<forall>c<n. l' ! c = (if \<exists>x\<in>set xs. active x \<and> a x = int c then val (int c) else l1 ! c)"
      by blast
    have "l' ! c = (if \<exists>y\<in>set (x # xs). active y \<and> a y = int c then val (int c) else l ! c)"
      if c: "c < n" for c
    proof (cases "a x = int c")
      case ax: True
      then have "nat (a x) = c" by simp
      then have "l1 ! c = val (int c)"
        using c Cons.prems(3) ax by (simp add: l1_def)
      with l'(3) c ax True show ?thesis by auto
    next
      case ax: False
      then have "nat (a x) \<noteq> c" using rng by auto
      then have "l1 ! c = l ! c" by (simp add: l1_def)
      with l'(3) c ax show ?thesis by auto
    qed
    with l'(1,2) fx show ?thesis by auto
  qed
qed

lemma ceil_div_covers:
  assumes "0 < (k::nat)"
  shows "b \<le> k * ((b + k - 1) div k)"
proof -
  define x where "x = b + k - 1"
  have "x mod k < k" using assms by simp
  moreover have "k * (x div k) + x mod k = x" by (rule mult_div_mod_eq)
  ultimately have "b \<le> k * (x div k)" using assms x_def by linarith
  then show ?thesis by (simp only: x_def)
qed

section \<open>Minimum length penalty\<close>

lemma min_length_thread_global:
  "batchApplyMinLengthPenalty_thread MAX_T_VAL min_lengths sequence_lengths vsp batch_size
     end_ids eis blockDim (t div blockDim) (t mod blockDim) =
   batchApplyMinLengthPenalty_thread MAX_T_VAL min_lengths sequence_lengths vsp batch_size
     end_ids eis 1 t 0"
  by (rule ext) (simp add: batchApplyMinLengthPenalty_thread_def Let_def split: sum.split)

lemma min_length_kernel:
  assumes eis: "0 < eis" and len: "length logits = batch_size * vsp"
    and ids: "\<forall>k<batch_size * eis. end_ids ! k < int vsp"
  shows "\<exists>out. batchApplyMinLengthPenalty gridDim blockDim MAX_T_VAL logits min_lengths
             sequence_lengths vsp batch_size end_ids eis = Inr out \<and>
           length out = batch_size * vsp \<and>
           (\<forall>c<batch_size * vsp. out ! c =
              (if \<exists>t\<in>set [0..<gridDim * blockDim].
                    min_length_masks min_lengths sequence_lengths batch_size end_ids eis t \<and>
                    int (t div eis * vsp) + end_ids ! t = int c
               then - MAX_T_VAL else logits ! c))"
proof -
  let ?f = "\<lambda>t. batchApplyMinLengthPenalty_thread MAX_T_VAL min_lengths sequence_lengths vsp
      batch_size end_ids eis 1 t 0"
  let ?active = "min_length_masks min_lengths sequence_lengths batch_size end_ids eis"
  let ?a = "\<lambda>t. int (t div eis * vsp) + end_ids ! t"
  have run: "batchApplyMinLengthPenalty gridDim blockDim MAX_T_VAL logits min_lengths
      sequence_lengths vsp batch_size end_ids eis = fold ?f [0..<gridDim * blockDim] (Inr logits)"
    by (simp add: batchApplyMinLengthPenalty_def launch_def min_length_thread_global)
  have "\<exists>l'. fold ?f [0..<gridDim * blockDim] (Inr logits) = Inr l' \<and>
      length l' = batch_size * vsp \<and>
      (\<forall>c<batch_size * vsp. l' ! c =
         (if \<exists>t\<in>set [0..<gridDim * blockDim]. ?active t \<and> ?a t = int c
          then (\<lambda>_. - MAX_T_VAL) (int c) else logits ! c))"
  proof (rule fold_writes [where val = "\<lambda>_. - MAX_T_VAL"])
    show "?f t (Inr l) = (if ?active t then wr l (?a t) (- MAX_T_VAL) else Inr l)" for t l
      using eis by (simp add: batchApplyMinLengthPenalty_thread_def min_length_masks_def Let_def)
    show "0 \<le> ?a t \<and> ?a t < int (batch_size * vsp)" if "?active t" for t
    proof -
      from that have b: "t div eis < batch_size" and pos: "0 < end_ids ! t"
        by (simp_all add: min_length_masks_def)
      from b eis have "t < batch_size * eis"
        by (simp add: div_less_iff_less_mult)
      with ids have up: "end_ids ! t < int vsp" by simp
      from b have "t div eis * vsp + vsp \<le> batch_size * vsp"
        by (metis Suc_leI mult_Suc mult_le_mono1 add.commute)
      then have "int (t div eis * vsp) + int vsp \<le> int (batch_size * vsp)"
        by (metis of_nat_add of_nat_le_iff)
      with up pos show ?thesis by linarith
    qed
    show "length logits = batch_size * vsp" by (rule len)
  qed
  with run show ?thesis by simp
qed

lemma row_col_unique:
  assumes "int (b' * vsp) + e = int (b * vsp + col)" "0 \<le> e" "e < int vsp" "col < vsp"
  shows "b' = b \<and> e = int col"
proof -
  from assms(2) obtain m where m: "e = int m" by (metis nonneg_int_cases)
  from assms(1) m have "int (b' * vsp + m) = int (b * vsp + col)" by simp
  then have eq: "b' * vsp + m = b * vsp + col" by (simp only: of_nat_eq_iff)
  from assms(3) m have "m < vsp" by simp
  have "(b' * vsp + m) div vsp = b'" using \<open>m < vsp\<close> by simp
  moreover have "(b * vsp + col) div vsp = b" using assms(4) by simp
  ultimately have "b' = b" using eq by simp
  with eq m show ?thesis by simp
qed

text \<open>
  Claim C5, amended. With at least one end id per row and every end id below the padded
  width \<open>vocab_size_padded\<close>, the
  launch of \<^verbatim>\<open>invokeMinLengthPenalty\<close> completes, and for every row \<open>bid\<close> and
  column \<open>col\<close> the logit is \<open>- MAX_T_VAL\<close> if and only if some end id of the row is
  \<open>col\<close>, is strictly greater than zero, and \<open>sequence_length + 1 < min_length\<close> holds
  for the row; every other logit keeps its value. An end id of zero or less masks
  nothing, and the end ids of a row are treated one by one. In particular, with
  sequence length 3 and minimum length 5, the end id 0 changes nothing and the end id 2
  sets column 2 to \<open>- MAX_T_VAL\<close>.
\<close>

theorem min_length_penalty:
  assumes "0 < end_ids_size"
    and "length logits = batch_size * vocab_size_padded"
    and "length end_ids = batch_size * end_ids_size"
    and "length min_lengths = batch_size" and "length sequence_lengths = batch_size"
    and "\<forall>k<batch_size * end_ids_size. end_ids ! k < int vocab_size_padded"
    and "bid < batch_size" and "col < vocab_size_padded"
  shows "(\<exists>out. invokeMinLengthPenalty MAX_T_VAL logits min_lengths sequence_lengths
              vocab_size_padded batch_size end_ids end_ids_size = Inr out \<and>
            length out = length logits \<and>
            out ! (bid * vocab_size_padded + col) =
              (if \<exists>eid<end_ids_size.
                    end_ids ! (bid * end_ids_size + eid) = int col \<and>
                    end_ids ! (bid * end_ids_size + eid) > 0 \<and>
                    sequence_lengths ! bid + 1 < min_lengths ! bid
               then - MAX_T_VAL else logits ! (bid * vocab_size_padded + col))) \<and>
         invokeMinLengthPenalty MAX_T_VAL [x, y, z, w] [5] [3] 4 1 [0] 1 =
           Inr [x, y, z, w] \<and>
         invokeMinLengthPenalty MAX_T_VAL [x, y, z, w] [5] [3] 4 1 [2] 1 =
           Inr [x, y, - MAX_T_VAL, w]"
proof (intro conjI)
  let ?B = "batch_size * end_ids_size"
  let ?block = "min ?B 1024"
  let ?grid = "(?B + ?block - 1) div ?block"
  let ?c = "bid * vocab_size_padded + col"
  let ?masks = "min_length_masks min_lengths sequence_lengths batch_size end_ids end_ids_size"
  have B: "0 < ?B" using assms(1,7) by simp
  then have block: "0 < ?block" by simp
  have cover: "?B \<le> ?block * ?grid" using block by (rule ceil_div_covers)
  have "bid * vocab_size_padded + vocab_size_padded \<le> batch_size * vocab_size_padded"
    using assms(7) by (metis Suc_leI mult_Suc mult_le_mono1 add.commute)
  then have c: "?c < batch_size * vocab_size_padded" using assms(8) by simp
  have inv: "invokeMinLengthPenalty MAX_T_VAL logits min_lengths sequence_lengths
      vocab_size_padded batch_size end_ids end_ids_size =
      batchApplyMinLengthPenalty ?block ?grid MAX_T_VAL logits min_lengths sequence_lengths
        vocab_size_padded batch_size end_ids end_ids_size"
    using B by (auto simp: invokeMinLengthPenalty_def Let_def min_def)
  from min_length_kernel [OF assms(1,2,6), of ?block ?grid MAX_T_VAL min_lengths sequence_lengths]
  obtain out where out:
    "batchApplyMinLengthPenalty ?block ?grid MAX_T_VAL logits min_lengths sequence_lengths
       vocab_size_padded batch_size end_ids end_ids_size = Inr out"
    "length out = batch_size * vocab_size_padded"
    "\<forall>c<batch_size * vocab_size_padded. out ! c =
       (if \<exists>t\<in>set [0..<?block * ?grid]. ?masks t \<and>
             int (t div end_ids_size * vocab_size_padded) + end_ids ! t = int c
        then - MAX_T_VAL else logits ! c)"
    by blast
  have iff: "(\<exists>t\<in>set [0..<?block * ?grid]. ?masks t \<and>
               int (t div end_ids_size * vocab_size_padded) + end_ids ! t = int ?c) \<longleftrightarrow>
             (\<exists>eid<end_ids_size.
                end_ids ! (bid * end_ids_size + eid) = int col \<and>
                end_ids ! (bid * end_ids_size + eid) > 0 \<and>
                sequence_lengths ! bid + 1 < min_lengths ! bid)" (is "?L \<longleftrightarrow> ?R")
  proof
    assume ?L
    then obtain t where t: "?masks t"
      "int (t div end_ids_size * vocab_size_padded) + end_ids ! t = int ?c" by blast
    from t(1) have b: "t div end_ids_size < batch_size" and pos: "0 < end_ids ! t"
      and ln: "sequence_lengths ! (t div end_ids_size) + 1 < min_lengths ! (t div end_ids_size)"
      by (simp_all add: min_length_masks_def)
    from b assms(1) have "t < ?B" by (simp add: div_less_iff_less_mult)
    with assms(6) have up: "end_ids ! t < int vocab_size_padded" by simp
    from row_col_unique [OF t(2) _ up assms(8)] pos
    have same: "t div end_ids_size = bid" "end_ids ! t = int col" by simp_all
    have "t = bid * end_ids_size + t mod end_ids_size"
      using same(1) div_mult_mod_eq [of t end_ids_size] by simp
    moreover have "t mod end_ids_size < end_ids_size" using assms(1) by simp
    ultimately show ?R using same pos ln by metis
  next
    assume ?R
    then obtain eid where eid: "eid < end_ids_size"
      "end_ids ! (bid * end_ids_size + eid) = int col"
      "end_ids ! (bid * end_ids_size + eid) > 0"
      "sequence_lengths ! bid + 1 < min_lengths ! bid" by blast
    let ?t = "bid * end_ids_size + eid"
    have d: "?t div end_ids_size = bid" using eid(1) by simp
    have "bid * end_ids_size + end_ids_size \<le> ?B"
      using assms(7) by (metis Suc_leI mult_Suc mult_le_mono1 add.commute)
    with eid(1) cover have "?t < ?block * ?grid" by linarith
    moreover have "?masks ?t"
      using d eid assms(7) by (simp add: min_length_masks_def)
    moreover have "int (?t div end_ids_size * vocab_size_padded) + end_ids ! ?t = int ?c"
      using d eid(2) by simp
    ultimately show ?L by (intro bexI [of _ ?t]) simp_all
  qed
  have "out ! ?c =
      (if \<exists>eid<end_ids_size.
            end_ids ! (bid * end_ids_size + eid) = int col \<and>
            end_ids ! (bid * end_ids_size + eid) > 0 \<and>
            sequence_lengths ! bid + 1 < min_lengths ! bid
       then - MAX_T_VAL else logits ! ?c)"
    using out(3) c iff by simp
  with inv out(1,2) assms(2)
  show "\<exists>out. invokeMinLengthPenalty MAX_T_VAL logits min_lengths sequence_lengths
              vocab_size_padded batch_size end_ids end_ids_size = Inr out \<and>
            length out = length logits \<and>
            out ! (bid * vocab_size_padded + col) =
              (if \<exists>eid<end_ids_size.
                    end_ids ! (bid * end_ids_size + eid) = int col \<and>
                    end_ids ! (bid * end_ids_size + eid) > 0 \<and>
                    sequence_lengths ! bid + 1 < min_lengths ! bid
               then - MAX_T_VAL else logits ! (bid * vocab_size_padded + col))"
    by simp
next
  show "invokeMinLengthPenalty MAX_T_VAL [x, y, z, w] [5] [3] 4 1 [0] 1 = Inr [x, y, z, w]"
    by (simp add: invokeMinLengthPenalty_def batchApplyMinLengthPenalty_def launch_def
        batchApplyMinLengthPenalty_thread_def wr_def)
next
  show "invokeMinLengthPenalty MAX_T_VAL [x, y, z, w] [5] [3] 4 1 [2] 1 =
      Inr [x, y, - MAX_T_VAL, w]"
    by (simp add: invokeMinLengthPenalty_def batchApplyMinLengthPenalty_def launch_def
        batchApplyMinLengthPenalty_thread_def wr_def)
qed

text \<open>The theorem at two rows with two end ids each.\<close>

theorem min_length_penalty_witness:
  "\<exists>out. invokeMinLengthPenalty 100 [1, 2, 3, 4, 5, 6, 7, 8] [5, 2] [3, 3] 4 2 [2, 0, 1, 3] 2 =
            Inr out \<and> out ! 2 = - 100"
proof -
  have k: "k = 0 \<or> k = 1 \<or> k = 2 \<or> k = 3" if "k < 2 * 2" for k :: nat
    using that by linarith
  have ids: "\<forall>k<2 * 2. [2, 0, 1, 3 :: int] ! k < int 4"
  proof (intro allI impI)
    fix k :: nat
    assume "k < 2 * 2"
    from k [OF this] show "[2, 0, 1, 3 :: int] ! k < int 4" by auto
  qed
  have ex: "\<exists>eid<2. [2, 0, 1, 3 :: int] ! (0 * 2 + eid) = int 2 \<and>
      [2, 0, 1, 3 :: int] ! (0 * 2 + eid) > 0 \<and> [3, 3 :: int] ! 0 + 1 < [5, 2] ! 0"
    by (intro exI [of _ 0]) simp
  from min_length_penalty [of 2 "[1, 2, 3, 4, 5, 6, 7, 8]" 2 4 "[2, 0, 1, 3]" "[5, 2]" "[3, 3]"
      0 2 100 0 0 0 0, OF _ _ _ _ _ ids] ex
  show ?thesis by (auto simp: numeral_2_eq_2)
qed

text \<open>
  Against claim C5 as stated, which puts no bound on the end ids: the kernel never compares
  an end id with \<open>vocab_size_padded\<close>. Take two rows of padded width 4 with one end id
  each. Row 0 has the end id 5, sequence length 3 and minimum length 5, so it stores at
  offset \<open>0 * 4 + 5\<close>, which is column 1 of row 1. Row 1 has the end id 0 only, which
  is skipped, and minimum length 0; yet its logit at column 1 is replaced by
  \<open>- MAX_T_VAL\<close>, a column that is no end id of that row.
\<close>

theorem min_length_penalty_foreign_row:
  "invokeMinLengthPenalty 100 [1, 2, 3, 4, 5, 6, 7, 8] [5, 0] [3, 3] 4 2 [5, 0] 1 =
     Inr [1, 2, 3, 4, 5, - 100, 7, 8]"
proof -
  have two: "[0..<2] = [0, Suc 0]" by (simp add: numeral_2_eq_2)
  show ?thesis
    by (simp add: invokeMinLengthPenalty_def batchApplyMinLengthPenalty_def launch_def two
        batchApplyMinLengthPenalty_thread_def wr_def)
qed

section \<open>Two-phase kernels\<close>

text \<open>
  The repetition penalty kernels run, per block, a loop that fills the scratch arrays
  and a loop that stores into the logits; the blocks work on one row each.
\<close>

lemma block_stride_loop:
  "launch 1 blockDim (\<lambda>_ threadIdx. stride_loop body blockDim bound threadIdx) s =
   fold body (schedule blockDim bound) s"
proof -
  have "launch 1 blockDim (\<lambda>_ threadIdx. stride_loop body blockDim bound threadIdx) s =
      fold (\<lambda>tid. stride_loop body blockDim bound (tid mod blockDim)) [0..<blockDim] s"
    by (simp add: launch_def)
  also have "\<dots> = fold (\<lambda>tid. fold body (stride_indices blockDim bound tid)) [0..<blockDim] s"
    by (rule fold_cong) (auto simp: stride_loop_fold)
  also have "\<dots> = fold body (schedule blockDim bound) s"
    by (simp add: schedule_def fold_concat_fold fold_map comp_def)
  finally show ?thesis .
qed

lemma set_schedule_block:
  "0 < blockDim \<or> bound = 0 \<Longrightarrow> set (schedule blockDim bound) = {j. j < bound}"
proof (cases "0 < blockDim")
  case True
  then show ?thesis by (simp add: set_schedule)
next
  case False
  then have "schedule blockDim bound = []" by (simp add: schedule_def)
  moreover assume "0 < blockDim \<or> bound = 0"
  ultimately show ?thesis using False by simp
qed

lemma fold_Inl:
  "(\<And>x e. f x (Inl e) = Inl e) \<Longrightarrow> fold f xs (Inl e) = Inl e"
  by (induction xs) simp_all

lemma fold_scratch:
  assumes "\<And>x pl px. x \<in> set xs \<Longrightarrow>
             f x (Inr (pl, px)) =
               (if bad x then Inl E
                else if keep x then Inr (pl(x := V x), px(x := I x)) else Inr (pl, px))"
    and "\<And>x e. f x (Inl e) = Inl e"
  shows "fold f xs (Inr (pl, px)) =
           (if \<exists>x\<in>set xs. bad x then Inl E
            else Inr (\<lambda>i. if i \<in> set xs \<and> keep i then V i else pl i,
                      \<lambda>i. if i \<in> set xs \<and> keep i then I i else px i))"
  using assms(1)
proof (induction xs arbitrary: pl px)
  case Nil
  then show ?case by simp
next
  case (Cons x xs)
  have step: "f x (Inr (pl, px)) =
      (if bad x then Inl E
       else if keep x then Inr (pl(x := V x), px(x := I x)) else Inr (pl, px))"
    using Cons.prems [of x pl px] by simp
  have ih: "fold f xs (Inr (pl', px')) =
      (if \<exists>x\<in>set xs. bad x then Inl E
       else Inr (\<lambda>i. if i \<in> set xs \<and> keep i then V i else pl' i,
                 \<lambda>i. if i \<in> set xs \<and> keep i then I i else px' i))" for pl' px'
  proof (rule Cons.IH)
    show "f y (Inr (pl0, px0)) =
        (if bad y then Inl E
         else if keep y then Inr (pl0(y := V y), px0(y := I y)) else Inr (pl0, px0))"
      if "y \<in> set xs" for y pl0 px0
      using Cons.prems [of y pl0 px0] that by simp
  qed
  show ?case
  proof (cases "bad x")
    case True
    with step show ?thesis by (simp add: fold_Inl [OF assms(2)])
  next
    case nb: False
    show ?thesis
    proof (cases "keep x")
      case True
      have "(\<lambda>i. if i \<in> set xs \<and> keep i then V i else (pl(x := V x)) i) =
          (\<lambda>i. if i \<in> set (x # xs) \<and> keep i then V i else pl i)"
        using True by (intro ext) simp
      moreover have "(\<lambda>i. if i \<in> set xs \<and> keep i then I i else (px(x := I x)) i) =
          (\<lambda>i. if i \<in> set (x # xs) \<and> keep i then I i else px i)"
        using True by (intro ext) simp
      ultimately show ?thesis
        using step nb True ih [of "pl(x := V x)" "px(x := I x)"] by simp
    next
      case False
      have "(\<lambda>i. if i \<in> set xs \<and> keep i then V i else pl i) =
          (\<lambda>i. if i \<in> set (x # xs) \<and> keep i then V i else pl i)"
        using False by (intro ext) auto
      moreover have "(\<lambda>i. if i \<in> set xs \<and> keep i then I i else px i) =
          (\<lambda>i. if i \<in> set (x # xs) \<and> keep i then I i else px i)"
        using False by (intro ext) auto
      ultimately show ?thesis
        using step nb False ih [of pl px] by simp
    qed
  qed
qed

lemma fold_blocks:
  assumes "\<And>b l. b < g \<Longrightarrow> length l = n \<Longrightarrow>
             (if fails b then blk b (Inr l) = Inl E
              else \<exists>l'. blk b (Inr l) = Inr l' \<and> length l' = n \<and>
                     (\<forall>c<n. l' ! c = (if c div w = b \<and> hit c then h c (l ! c) else l ! c)))"
    and "\<And>b e. blk b (Inl e) = Inl e"
    and "length l = n"
  shows "if \<exists>b<g. fails b then fold blk [0..<g] (Inr l) = Inl E
         else \<exists>l'. fold blk [0..<g] (Inr l) = Inr l' \<and> length l' = n \<and>
                (\<forall>c<n. l' ! c = (if c div w < g \<and> hit c then h c (l ! c) else l ! c))"
  using assms(1)
proof (induction g)
  case 0
  then show ?case using assms(3) by simp
next
  case (Suc g)
  have ih: "if \<exists>b<g. fails b then fold blk [0..<g] (Inr l) = Inl E
         else \<exists>l'. fold blk [0..<g] (Inr l) = Inr l' \<and> length l' = n \<and>
                (\<forall>c<n. l' ! c = (if c div w < g \<and> hit c then h c (l ! c) else l ! c))"
  proof (rule Suc.IH)
    show "if fails b then blk b (Inr l0) = Inl E
          else \<exists>l'. blk b (Inr l0) = Inr l' \<and> length l' = n \<and>
                 (\<forall>c<n. l' ! c = (if c div w = b \<and> hit c then h c (l0 ! c) else l0 ! c))"
      if "b < g" "length l0 = n" for b l0
      using Suc.prems [of b l0] that by simp
  qed
  have unfold: "fold blk [0..<Suc g] (Inr l) = blk g (fold blk [0..<g] (Inr l))"
    by simp
  show ?case
  proof (cases "\<exists>b<g. fails b")
    case True
    with ih have "fold blk [0..<g] (Inr l) = Inl E" by simp
    with unfold assms(2) have "fold blk [0..<Suc g] (Inr l) = Inl E" by simp
    moreover from True have "\<exists>b<Suc g. fails b" using less_Suc_eq by blast
    ultimately show ?thesis by simp
  next
    case nf: False
    with ih obtain l1 where l1: "fold blk [0..<g] (Inr l) = Inr l1" "length l1 = n"
      "\<forall>c<n. l1 ! c = (if c div w < g \<and> hit c then h c (l ! c) else l ! c)"
      by auto
    have blk: "if fails g then blk g (Inr l1) = Inl E
          else \<exists>l'. blk g (Inr l1) = Inr l' \<and> length l' = n \<and>
                 (\<forall>c<n. l' ! c = (if c div w = g \<and> hit c then h c (l1 ! c) else l1 ! c))"
      using Suc.prems [of g l1] l1(2) by simp
    show ?thesis
    proof (cases "fails g")
      case True
      with blk unfold l1(1) have "fold blk [0..<Suc g] (Inr l) = Inl E" by simp
      moreover from True have "\<exists>b<Suc g. fails b" by blast
      ultimately show ?thesis by simp
    next
      case False
      with blk obtain l2 where l2: "blk g (Inr l1) = Inr l2" "length l2 = n"
        "\<forall>c<n. l2 ! c = (if c div w = g \<and> hit c then h c (l1 ! c) else l1 ! c)"
        by auto
      have "l2 ! c = (if c div w < Suc g \<and> hit c then h c (l ! c) else l ! c)" if "c < n" for c
        using l2(3) l1(3) that by (auto simp: less_Suc_eq)
      moreover have "\<not> (\<exists>b<Suc g. fails b)"
        using nf False by (auto simp: less_Suc_eq)
      ultimately show ?thesis
        using unfold l1(1) l2(1,2) by simp
    qed
  qed
qed

lemma mult_Suc_le:
  assumes "i < n"
  shows "i * w + w \<le> n * (w::nat)"
proof -
  from assms have "Suc i \<le> n" by simp
  then have "Suc i * w \<le> n * w" by (rule mult_le_mono1)
  then show ?thesis by simp
qed

lemma row_address:
  assumes "0 \<le> e" "e < int w"
  shows "int (b * w) + e = int c \<longleftrightarrow> c div w = b \<and> e = int (c mod w)"
proof -
  from assms(1) obtain m where m: "e = int m" by (metis nonneg_int_cases)
  with assms(2) have mw: "m < w" by simp
  have "int (b * w) + e = int c \<longleftrightarrow> b * w + m = c"
    unfolding m by (simp only: of_nat_add [symmetric] of_nat_eq_iff)
  also have "\<dots> \<longleftrightarrow> c div w = b \<and> m = c mod w"
  proof
    assume "b * w + m = c"
    then have "c div w = (b * w + m) div w" "c mod w = (b * w + m) mod w" by simp_all
    with mw show "c div w = b \<and> m = c mod w" by simp
  next
    assume "c div w = b \<and> m = c mod w"
    then show "b * w + m = c" using div_mult_mod_eq [of c w] by simp
  qed
  finally show ?thesis using m by simp
qed

lemma row_cell_bound:
  assumes "b < g" "0 \<le> e" "e < int w"
  shows "0 \<le> int (b * w) + e \<and> int (b * w) + e < int (g * w)"
proof -
  from assms(1) have "b * w + w \<le> g * w"
    by (rule mult_Suc_le)
  then have "int (b * w) + int w \<le> int (g * w)"
    by (metis of_nat_add of_nat_le_iff)
  with assms(2,3) show ?thesis by linarith
qed

lemma history_index_bound:
  assumes "i < step" "b < batch_size"
  shows "i * batch_size + b < step * (batch_size::nat)"
proof -
  from assms(1) have "i * batch_size + batch_size \<le> step * batch_size"
    by (rule mult_Suc_le)
  with assms(2) show ?thesis by linarith
qed

section \<open>Repetition penalty, batched kernel\<close>

lemma rd_in_range: "0 \<le> a \<Longrightarrow> a < int (length buf) \<Longrightarrow> rd buf a = Inr (buf ! nat a)"
  by (simp add: rd_def)

lemma nat_int_plus: "0 \<le> e \<Longrightarrow> nat (int k + e) = k + nat e"
  by (simp add: nat_add_distrib)

lemma rd_nat: "k < length buf \<Longrightarrow> rd buf (int k) = Inr (buf ! k)"
  by (simp add: rd_def)

lemma batch_read_step:
  assumes "i < step" and "b < batch_size" and "step * batch_size \<le> length output_ids"
    and "b < grid" and "length l = grid * vocab"
    and "\<not> padding_position il mx i \<longrightarrow> 0 \<le> output_ids ! (i * batch_size + b)"
  shows "batchApplyRepetitionPenalty_read ty l p output_ids batch_size b vocab il mx i
           (Inr (plog, pidx)) =
         (if \<not> padding_position il mx i \<and> \<not> output_ids ! (i * batch_size + b) < int vocab
          then Inl AssertionFailed
          else if \<not> padding_position il mx i
          then Inr (plog(i := penalize ty p (l ! (b * vocab + nat (output_ids ! (i * batch_size + b))))),
                    pidx(i := output_ids ! (i * batch_size + b)))
          else Inr (plog, pidx))"
proof -
  let ?e = "output_ids ! (i * batch_size + b)"
  have "i * batch_size + b < length output_ids"
    using history_index_bound [OF assms(1,2)] assms(3) by simp
  then have r1: "rd output_ids (int (i * batch_size + b)) = Inr ?e"
    by (rule rd_nat)
  have r2: "rd l (int (b * vocab) + ?e) = Inr (l ! (b * vocab + nat ?e))"
    if "0 \<le> ?e" "?e < int vocab"
  proof -
    have "0 \<le> int (b * vocab) + ?e \<and> int (b * vocab) + ?e < int (length l)"
      using row_cell_bound [OF assms(4) that] assms(5) by simp
    moreover have "nat (int (b * vocab) + ?e) = b * vocab + nat ?e"
      using that(1) by (rule nat_int_plus)
    ultimately show ?thesis by (simp add: rd_in_range)
  qed
  show ?thesis
  proof (cases "padding_position il mx i")
    case True
    then show ?thesis by (simp add: batchApplyRepetitionPenalty_read_def)
  next
    case np: False
    with assms(6) have nn: "0 \<le> ?e" by simp
    show ?thesis
    proof (cases "?e < int vocab")
      case True
      with np r1 r2 [OF nn True] show ?thesis
        by (simp add: batchApplyRepetitionPenalty_read_def)
    next
      case False
      with np r1 show ?thesis
        by (simp add: batchApplyRepetitionPenalty_read_def)
    qed
  qed
qed

lemma batch_read_Inl:
  "batchApplyRepetitionPenalty_read ty l p output_ids batch_size b vocab il mx i (Inl e) = Inl e"
  by (simp add: batchApplyRepetitionPenalty_read_def)

lemma batch_write_step:
  "batchApplyRepetitionPenalty_write sc b vocab il mx i (Inr l0) =
     (if \<not> padding_position il mx i then wr l0 (int (b * vocab) + snd sc i) (fst sc i)
      else Inr l0)"
  by (simp add: batchApplyRepetitionPenalty_write_def)

lemma batch_block:
  assumes b: "b < grid" and bb: "b < batch_size"
    and ids: "step * batch_size \<le> length output_ids"
    and len: "length l = grid * vocab"
    and nn: "\<forall>i<step. \<not> padding_position (row_input_length input_lengths mx b) mx i \<longrightarrow>
               0 \<le> output_ids ! (i * batch_size + b)"
    and bd: "0 < blockDim \<or> step = 0"
  shows "if \<exists>i<step. \<not> padding_position (row_input_length input_lengths mx b) mx i \<and>
              \<not> output_ids ! (i * batch_size + b) < int vocab
         then batchApplyRepetitionPenalty_block ty blockDim penalties ws output_ids batch_size
                vocab input_lengths mx step b (Inr l) = Inl AssertionFailed
         else \<exists>l'. batchApplyRepetitionPenalty_block ty blockDim penalties ws output_ids
                      batch_size vocab input_lengths mx step b (Inr l) = Inr l' \<and>
                length l' = grid * vocab \<and>
                (\<forall>c<grid * vocab. l' ! c =
                   (if c div vocab = b \<and>
                       (\<exists>i<step.
                          \<not> padding_position (row_input_length input_lengths mx (c div vocab)) mx i \<and>
                          output_ids ! (i * batch_size + c div vocab) = int (c mod vocab))
                    then penalize ty (penalties ! (c div vocab)) (l ! c) else l ! c))"
proof -
  let ?il = "row_input_length input_lengths mx b"
  let ?p = "penalties ! b"
  let ?xs = "schedule blockDim step"
  let ?e = "\<lambda>i. output_ids ! (i * batch_size + b)"
  let ?read = "batchApplyRepetitionPenalty_read ty l ?p output_ids batch_size b vocab ?il mx"
  let ?bad = "\<lambda>i. \<not> padding_position ?il mx i \<and> \<not> ?e i < int vocab"
  let ?keep = "\<lambda>i. \<not> padding_position ?il mx i"
  let ?V = "\<lambda>i. penalize ty ?p (l ! (b * vocab + nat (?e i)))"
  obtain plog pidx where ws: "ws b = (plog, pidx)" by (cases "ws b")
  let ?sc = "(\<lambda>i. if i \<in> set ?xs \<and> ?keep i then ?V i else plog i,
              \<lambda>i. if i \<in> set ?xs \<and> ?keep i then ?e i else pidx i)"
  have xs: "set ?xs = {j. j < step}" using bd by (rule set_schedule_block)
  have phase1: "fold ?read ?xs (Inr (plog, pidx)) =
      (if \<exists>x\<in>set ?xs. ?bad x then Inl AssertionFailed else Inr ?sc)"
  proof (rule fold_scratch)
    show "?read x (Inr (pl0, px0)) =
        (if ?bad x then Inl AssertionFailed
         else if ?keep x then Inr (pl0(x := ?V x), px0(x := ?e x)) else Inr (pl0, px0))"
      if "x \<in> set ?xs" for x pl0 px0
    proof -
      from that xs have x: "x < step" by simp
      with nn have "\<not> padding_position ?il mx x \<longrightarrow> 0 \<le> ?e x" by simp
      from batch_read_step [OF x bb ids b len this] show ?thesis .
    qed
    show "?read x (Inl e) = Inl e" for x e by (rule batch_read_Inl)
  qed
  have blk: "batchApplyRepetitionPenalty_block ty blockDim penalties ws output_ids batch_size
      vocab input_lengths mx step b (Inr l) =
      (case fold ?read ?xs (Inr (plog, pidx)) of
         Inl e \<Rightarrow> Inl e
       | Inr sc \<Rightarrow> fold (batchApplyRepetitionPenalty_write sc b vocab ?il mx) ?xs (Inr l))"
    unfolding batchApplyRepetitionPenalty_block_def Let_def block_stride_loop ws by simp
  show ?thesis
  proof (cases "\<exists>i<step. ?bad i")
    case True
    then have "\<exists>x\<in>set ?xs. ?bad x" using xs by auto
    with phase1 blk True show ?thesis by simp
  next
    case False
    then have nobad: "\<not> (\<exists>x\<in>set ?xs. ?bad x)" using xs by auto
    with phase1 blk have run: "batchApplyRepetitionPenalty_block ty blockDim penalties ws
        output_ids batch_size vocab input_lengths mx step b (Inr l) =
        fold (batchApplyRepetitionPenalty_write ?sc b vocab ?il mx) ?xs (Inr l)"
      by simp
    have valid: "0 \<le> ?e x \<and> ?e x < int vocab" if "x \<in> set ?xs" "?keep x" for x
      using that nn False xs by auto
    have "\<exists>l'. fold (batchApplyRepetitionPenalty_write ?sc b vocab ?il mx) ?xs (Inr l) = Inr l' \<and>
        length l' = grid * vocab \<and>
        (\<forall>c<grid * vocab. l' ! c =
           (if \<exists>x\<in>set ?xs. ?keep x \<and> int (b * vocab) + ?e x = int c
            then (\<lambda>a. penalize ty ?p (l ! nat a)) (int c) else l ! c))"
    proof (rule fold_writes [where val = "\<lambda>a. penalize ty ?p (l ! nat a)"])
      show "batchApplyRepetitionPenalty_write ?sc b vocab ?il mx x (Inr l0) =
          (if ?keep x
           then wr l0 (int (b * vocab) + ?e x) (penalize ty ?p (l ! nat (int (b * vocab) + ?e x)))
           else Inr l0)"
        if "x \<in> set ?xs" "length l0 = grid * vocab" for x l0
      proof (cases "?keep x")
        case True
        with valid [OF that(1)] have "nat (int (b * vocab) + ?e x) = b * vocab + nat (?e x)"
          by (intro nat_int_plus) simp
        with True that(1) show ?thesis by (simp only: batch_write_step fst_conv snd_conv if_True simp_thms)
      next
        case False
        then show ?thesis by (simp add: batch_write_step)
      qed
      show "0 \<le> int (b * vocab) + ?e x \<and> int (b * vocab) + ?e x < int (grid * vocab)"
        if "x \<in> set ?xs" "?keep x" for x
        using row_cell_bound [OF b] valid [OF that] by simp
      show "length l = grid * vocab" by (rule len)
    qed
    then have "\<exists>l'. fold (batchApplyRepetitionPenalty_write ?sc b vocab ?il mx) ?xs (Inr l) = Inr l' \<and>
        length l' = grid * vocab \<and>
        (\<forall>c<grid * vocab. l' ! c =
           (if \<exists>x\<in>set ?xs. ?keep x \<and> int (b * vocab) + ?e x = int c
            then penalize ty ?p (l ! c) else l ! c))"
      by (simp only: nat_int)
    then obtain l' where l': "fold (batchApplyRepetitionPenalty_write ?sc b vocab ?il mx) ?xs (Inr l) = Inr l'"
      "length l' = grid * vocab"
      "\<forall>c<grid * vocab. l' ! c =
           (if \<exists>x\<in>set ?xs. ?keep x \<and> int (b * vocab) + ?e x = int c
            then penalize ty ?p (l ! c) else l ! c)"
      by blast
    have hit: "(\<exists>x\<in>set ?xs. ?keep x \<and> int (b * vocab) + ?e x = int c) \<longleftrightarrow>
        (c div vocab = b \<and>
          (\<exists>i<step. \<not> padding_position (row_input_length input_lengths mx (c div vocab)) mx i \<and>
             output_ids ! (i * batch_size + c div vocab) = int (c mod vocab)))" for c
    proof
      assume "\<exists>x\<in>set ?xs. ?keep x \<and> int (b * vocab) + ?e x = int c"
      then obtain x where x: "x \<in> set ?xs" "?keep x" "int (b * vocab) + ?e x = int c" by blast
      from valid [OF x(1,2)]
      have "int (b * vocab) + ?e x = int c \<longleftrightarrow> c div vocab = b \<and> ?e x = int (c mod vocab)"
        by (intro row_address) simp_all
      with x(3) have "c div vocab = b \<and> ?e x = int (c mod vocab)" by blast
      with x(1,2) xs show "c div vocab = b \<and>
          (\<exists>i<step. \<not> padding_position (row_input_length input_lengths mx (c div vocab)) mx i \<and>
             output_ids ! (i * batch_size + c div vocab) = int (c mod vocab))"
        by auto
    next
      assume r: "c div vocab = b \<and>
          (\<exists>i<step. \<not> padding_position (row_input_length input_lengths mx (c div vocab)) mx i \<and>
             output_ids ! (i * batch_size + c div vocab) = int (c mod vocab))"
      then obtain i where i: "i < step" "?keep i" "?e i = int (c mod vocab)" by auto
      from i(1) xs have ix: "i \<in> set ?xs" by simp
      from valid [OF ix i(2)]
      have "int (b * vocab) + ?e i = int c \<longleftrightarrow> c div vocab = b \<and> ?e i = int (c mod vocab)"
        by (intro row_address) simp_all
      with r i(3) have "int (b * vocab) + ?e i = int c" by blast
      with ix i(2) show "\<exists>x\<in>set ?xs. ?keep x \<and> int (b * vocab) + ?e x = int c" by blast
    qed
    have "l' ! c =
        (if c div vocab = b \<and>
            (\<exists>i<step. \<not> padding_position (row_input_length input_lengths mx (c div vocab)) mx i \<and>
               output_ids ! (i * batch_size + c div vocab) = int (c mod vocab))
         then penalize ty (penalties ! (c div vocab)) (l ! c) else l ! c)"
      if "c < grid * vocab" for c
      using l'(3) that hit [of c] by auto
    with run l'(1,2) False show ?thesis by simp
  qed
qed

lemma batch_block_Inl:
  "batchApplyRepetitionPenalty_block ty blockDim penalties ws output_ids batch_size vocab
     input_lengths mx step b (Inl e) = Inl e"
  by (simp add: batchApplyRepetitionPenalty_block_def)

lemma batch_kernel:
  assumes gb: "grid \<le> batch_size"
    and ids: "step * batch_size \<le> length output_ids"
    and len: "length l = grid * vocab"
    and nn: "\<forall>b<grid. \<forall>i<step.
               \<not> padding_position (row_input_length input_lengths mx b) mx i \<longrightarrow>
               0 \<le> output_ids ! (i * batch_size + b)"
    and bd: "0 < blockDim \<or> step = 0"
  shows "if \<exists>b<grid. \<exists>i<step.
              \<not> padding_position (row_input_length input_lengths mx b) mx i \<and>
              \<not> output_ids ! (i * batch_size + b) < int vocab
         then batchApplyRepetitionPenalty ty grid blockDim l penalties ws output_ids batch_size
                vocab input_lengths mx step = Inl AssertionFailed
         else \<exists>l'. batchApplyRepetitionPenalty ty grid blockDim l penalties ws output_ids
                      batch_size vocab input_lengths mx step = Inr l' \<and>
                length l' = grid * vocab \<and>
                (\<forall>c<grid * vocab. l' ! c =
                   (if \<exists>i<step.
                         \<not> padding_position (row_input_length input_lengths mx (c div vocab)) mx i \<and>
                         output_ids ! (i * batch_size + c div vocab) = int (c mod vocab)
                    then penalize ty (penalties ! (c div vocab)) (l ! c) else l ! c))"
proof -
  let ?blk = "batchApplyRepetitionPenalty_block ty blockDim penalties ws output_ids batch_size
      vocab input_lengths mx step"
  let ?fails = "\<lambda>b. \<exists>i<step. \<not> padding_position (row_input_length input_lengths mx b) mx i \<and>
      \<not> output_ids ! (i * batch_size + b) < int vocab"
  let ?hit = "\<lambda>c. \<exists>i<step.
      \<not> padding_position (row_input_length input_lengths mx (c div vocab)) mx i \<and>
      output_ids ! (i * batch_size + c div vocab) = int (c mod vocab)"
  let ?h = "\<lambda>c. penalize ty (penalties ! (c div vocab))"
  have blocks: "if \<exists>b<grid. ?fails b then fold ?blk [0..<grid] (Inr l) = Inl AssertionFailed
      else \<exists>l'. fold ?blk [0..<grid] (Inr l) = Inr l' \<and> length l' = grid * vocab \<and>
             (\<forall>c<grid * vocab. l' ! c =
                (if c div vocab < grid \<and> ?hit c then ?h c (l ! c) else l ! c))"
  proof (rule fold_blocks)
    show "if ?fails b then ?blk b (Inr l0) = Inl AssertionFailed
        else \<exists>l'. ?blk b (Inr l0) = Inr l' \<and> length l' = grid * vocab \<and>
               (\<forall>c<grid * vocab. l' ! c =
                  (if c div vocab = b \<and> ?hit c then ?h c (l0 ! c) else l0 ! c))"
      if "b < grid" "length l0 = grid * vocab" for b l0
    proof (rule batch_block [OF that(1) _ ids that(2) _ bd])
      show "b < batch_size" using that(1) gb by simp
      show "\<forall>i<step. \<not> padding_position (row_input_length input_lengths mx b) mx i \<longrightarrow>
          0 \<le> output_ids ! (i * batch_size + b)"
        using nn that(1) by simp
    qed
    show "?blk b (Inl e) = Inl e" for b e by (rule batch_block_Inl)
    show "length l = grid * vocab" by (rule len)
  qed
  have row: "c div vocab < grid" if "c < grid * vocab" for c
    using that by (simp add: less_mult_imp_div_less)
  show ?thesis
  proof (cases "\<exists>b<grid. ?fails b")
    case True
    with blocks show ?thesis by (simp add: batchApplyRepetitionPenalty_def)
  next
    case False
    with blocks obtain l' where l': "fold ?blk [0..<grid] (Inr l) = Inr l'"
      "length l' = grid * vocab"
      "\<forall>c<grid * vocab. l' ! c = (if c div vocab < grid \<and> ?hit c then ?h c (l ! c) else l ! c)"
      by auto
    have "l' ! c = (if ?hit c then ?h c (l ! c) else l ! c)" if "c < grid * vocab" for c
      using l'(3) that row [OF that] by simp
    with l'(1,2) False show ?thesis by (simp add: batchApplyRepetitionPenalty_def)
  qed
qed

section \<open>Repetition penalty, single-penalty kernel\<close>

lemma single_read_step:
  assumes "i < step" and "b < batch_size" and "step * batch_size \<le> length output_ids"
    and "b < grid" and "length l = grid * vsp" and "vocab \<le> vsp"
    and "\<not> padding_position il mx i \<longrightarrow> 0 \<le> output_ids ! (i * batch_size + b)"
  shows "applyRepetitionPenalty_read ty l p output_ids batch_size b vocab vsp il mx i
           (Inr (plog, pidx)) =
         (if False then Inl AssertionFailed
          else if \<not> padding_position il mx i \<and> output_ids ! (i * batch_size + b) < int vocab
          then Inr (plog(i := penalize ty p (l ! (b * vsp + nat (output_ids ! (i * batch_size + b))))),
                    pidx(i := output_ids ! (i * batch_size + b)))
          else Inr (plog, pidx))"
proof -
  let ?e = "output_ids ! (i * batch_size + b)"
  have "i * batch_size + b < length output_ids"
    using history_index_bound [OF assms(1,2)] assms(3) by simp
  then have r1: "rd output_ids (int (i * batch_size + b)) = Inr ?e"
    by (rule rd_nat)
  have r2: "rd l (int (b * vsp) + ?e) = Inr (l ! (b * vsp + nat ?e))"
    if "0 \<le> ?e" "?e < int vocab"
  proof -
    from that(2) assms(6) have "?e < int vsp" by simp
    from row_cell_bound [OF assms(4) that(1) this] assms(5)
    have "0 \<le> int (b * vsp) + ?e \<and> int (b * vsp) + ?e < int (length l)" by simp
    moreover have "nat (int (b * vsp) + ?e) = b * vsp + nat ?e"
      using that(1) by (rule nat_int_plus)
    ultimately show ?thesis by (simp add: rd_in_range)
  qed
  show ?thesis
  proof (cases "padding_position il mx i")
    case True
    then show ?thesis by (simp add: applyRepetitionPenalty_read_def)
  next
    case np: False
    with assms(7) have nn: "0 \<le> ?e" by simp
    show ?thesis
    proof (cases "?e < int vocab")
      case True
      with np r1 r2 [OF nn True] show ?thesis
        by (simp add: applyRepetitionPenalty_read_def)
    next
      case False
      with np r1 show ?thesis
        by (simp add: applyRepetitionPenalty_read_def)
    qed
  qed
qed

lemma single_read_Inl:
  "applyRepetitionPenalty_read ty l p output_ids batch_size b vocab vsp il mx i (Inl e) = Inl e"
  by (simp add: applyRepetitionPenalty_read_def)

lemma single_write_step:
  "applyRepetitionPenalty_write sc b vocab vsp il mx i (Inr l0) =
     (if \<not> padding_position il mx i \<and> snd sc i < int vocab
      then wr l0 (int (b * vsp) + snd sc i) (fst sc i)
      else Inr l0)"
  by (simp add: applyRepetitionPenalty_write_def)

lemma single_block_Inl:
  "applyRepetitionPenalty_block ty blockDim smem penalty output_ids batch_size vocab vsp
     input_lengths mx step b (Inl e) = Inl e"
  by (simp add: applyRepetitionPenalty_block_def)

lemma single_block:
  assumes b: "b < grid" and bb: "b < batch_size"
    and ids: "step * batch_size \<le> length output_ids"
    and len: "length l = grid * vsp" and vv: "vocab \<le> vsp"
    and nn: "\<forall>i<step. \<not> padding_position (row_input_length input_lengths mx b) mx i \<longrightarrow>
               0 \<le> output_ids ! (i * batch_size + b)"
    and stale: "\<forall>i<step. \<not> padding_position (row_input_length input_lengths mx b) mx i \<and>
               \<not> output_ids ! (i * batch_size + b) < int vocab \<longrightarrow>
               \<not> snd (smem b) i < int vocab"
    and bd: "0 < blockDim \<or> step = 0"
  shows "if False
         then applyRepetitionPenalty_block ty blockDim smem penalty output_ids batch_size
                vocab vsp input_lengths mx step b (Inr l) = Inl AssertionFailed
         else \<exists>l'. applyRepetitionPenalty_block ty blockDim smem penalty output_ids
                      batch_size vocab vsp input_lengths mx step b (Inr l) = Inr l' \<and>
                length l' = grid * vsp \<and>
                (\<forall>c<grid * vsp. l' ! c =
                   (if c div vsp = b \<and>
                       (\<exists>i<step.
                          \<not> padding_position (row_input_length input_lengths mx (c div vsp)) mx i \<and>
                          output_ids ! (i * batch_size + c div vsp) = int (c mod vsp) \<and>
                          output_ids ! (i * batch_size + c div vsp) < int vocab)
                    then penalize ty penalty (l ! c) else l ! c))"
proof -
  let ?il = "row_input_length input_lengths mx b"
  let ?xs = "schedule blockDim step"
  let ?e = "\<lambda>i. output_ids ! (i * batch_size + b)"
  let ?read = "applyRepetitionPenalty_read ty l penalty output_ids batch_size b vocab vsp ?il mx"
  let ?keep = "\<lambda>i. \<not> padding_position ?il mx i \<and> ?e i < int vocab"
  let ?V = "\<lambda>i. penalize ty penalty (l ! (b * vsp + nat (?e i)))"
  obtain plog pidx where ws: "smem b = (plog, pidx)" by (cases "smem b")
  let ?sc = "(\<lambda>i. if i \<in> set ?xs \<and> ?keep i then ?V i else plog i,
              \<lambda>i. if i \<in> set ?xs \<and> ?keep i then ?e i else pidx i)"
  have xs: "set ?xs = {j. j < step}" using bd by (rule set_schedule_block)
  have phase1: "fold ?read ?xs (Inr (plog, pidx)) =
      (if \<exists>x\<in>set ?xs. False then Inl AssertionFailed else Inr ?sc)"
  proof (rule fold_scratch)
    show "?read x (Inr (pl0, px0)) =
        (if False then Inl AssertionFailed
         else if ?keep x then Inr (pl0(x := ?V x), px0(x := ?e x)) else Inr (pl0, px0))"
      if "x \<in> set ?xs" for x pl0 px0
    proof -
      from that xs have x: "x < step" by simp
      with nn have "\<not> padding_position ?il mx x \<longrightarrow> 0 \<le> ?e x" by simp
      from single_read_step [OF x bb ids b len vv this] show ?thesis .
    qed
    show "?read x (Inl e) = Inl e" for x e by (rule single_read_Inl)
  qed
  have blk: "applyRepetitionPenalty_block ty blockDim smem penalty output_ids batch_size
      vocab vsp input_lengths mx step b (Inr l) =
      (case fold ?read ?xs (Inr (plog, pidx)) of
         Inl e \<Rightarrow> Inl e
       | Inr sc \<Rightarrow> fold (applyRepetitionPenalty_write sc b vocab vsp ?il mx) ?xs (Inr l))"
    unfolding applyRepetitionPenalty_block_def Let_def block_stride_loop ws by simp
  with phase1 have run: "applyRepetitionPenalty_block ty blockDim smem penalty output_ids
      batch_size vocab vsp input_lengths mx step b (Inr l) =
      fold (applyRepetitionPenalty_write ?sc b vocab vsp ?il mx) ?xs (Inr l)"
    by simp
  have valid: "0 \<le> ?e x \<and> ?e x < int vsp" if "x \<in> set ?xs" "?keep x" for x
    using that nn xs vv by auto
  have active: "\<not> padding_position ?il mx x \<and> snd ?sc x < int vocab \<longleftrightarrow> ?keep x"
    if "x \<in> set ?xs" for x
  proof (cases "?keep x")
    case True
    with that show ?thesis by simp
  next
    case False
    from that xs have "x < step" by simp
    with stale False ws have "padding_position ?il mx x \<or> \<not> pidx x < int vocab" by auto
    with False that show ?thesis by auto
  qed
  have "\<exists>l'. fold (applyRepetitionPenalty_write ?sc b vocab vsp ?il mx) ?xs (Inr l) = Inr l' \<and>
      length l' = grid * vsp \<and>
      (\<forall>c<grid * vsp. l' ! c =
         (if \<exists>x\<in>set ?xs. ?keep x \<and> int (b * vsp) + ?e x = int c
          then (\<lambda>a. penalize ty penalty (l ! nat a)) (int c) else l ! c))"
  proof (rule fold_writes [where val = "\<lambda>a. penalize ty penalty (l ! nat a)"])
    show "applyRepetitionPenalty_write ?sc b vocab vsp ?il mx x (Inr l0) =
        (if ?keep x
         then wr l0 (int (b * vsp) + ?e x) (penalize ty penalty (l ! nat (int (b * vsp) + ?e x)))
         else Inr l0)"
      if "x \<in> set ?xs" "length l0 = grid * vsp" for x l0
    proof (cases "?keep x")
      case True
      with valid [OF that(1)] have "nat (int (b * vsp) + ?e x) = b * vsp + nat (?e x)"
        by (intro nat_int_plus) simp
      moreover have "snd ?sc x = ?e x" "fst ?sc x = ?V x" using True that(1) by simp_all
      ultimately show ?thesis using True by (simp only: single_write_step if_True simp_thms)
    next
      case False
      with active [OF that(1)] show ?thesis by (simp only: single_write_step if_False)
    qed
    show "0 \<le> int (b * vsp) + ?e x \<and> int (b * vsp) + ?e x < int (grid * vsp)"
      if "x \<in> set ?xs" "?keep x" for x
      using row_cell_bound [OF b] valid [OF that] by simp
    show "length l = grid * vsp" by (rule len)
  qed
  then have "\<exists>l'. fold (applyRepetitionPenalty_write ?sc b vocab vsp ?il mx) ?xs (Inr l) = Inr l' \<and>
      length l' = grid * vsp \<and>
      (\<forall>c<grid * vsp. l' ! c =
         (if \<exists>x\<in>set ?xs. ?keep x \<and> int (b * vsp) + ?e x = int c
          then penalize ty penalty (l ! c) else l ! c))"
    by (simp only: nat_int)
  then obtain l' where l': "fold (applyRepetitionPenalty_write ?sc b vocab vsp ?il mx) ?xs (Inr l) = Inr l'"
    "length l' = grid * vsp"
    "\<forall>c<grid * vsp. l' ! c =
         (if \<exists>x\<in>set ?xs. ?keep x \<and> int (b * vsp) + ?e x = int c
          then penalize ty penalty (l ! c) else l ! c)"
    by blast
  have hit: "(\<exists>x\<in>set ?xs. ?keep x \<and> int (b * vsp) + ?e x = int c) \<longleftrightarrow>
      (c div vsp = b \<and>
        (\<exists>i<step. \<not> padding_position (row_input_length input_lengths mx (c div vsp)) mx i \<and>
           output_ids ! (i * batch_size + c div vsp) = int (c mod vsp) \<and>
           output_ids ! (i * batch_size + c div vsp) < int vocab))" for c
  proof
    assume "\<exists>x\<in>set ?xs. ?keep x \<and> int (b * vsp) + ?e x = int c"
    then obtain x where x: "x \<in> set ?xs" "?keep x" "int (b * vsp) + ?e x = int c" by blast
    from valid [OF x(1,2)]
    have "int (b * vsp) + ?e x = int c \<longleftrightarrow> c div vsp = b \<and> ?e x = int (c mod vsp)"
      by (intro row_address) simp_all
    with x(3) have "c div vsp = b \<and> ?e x = int (c mod vsp)" by blast
    with x(1,2) xs show "c div vsp = b \<and>
        (\<exists>i<step. \<not> padding_position (row_input_length input_lengths mx (c div vsp)) mx i \<and>
           output_ids ! (i * batch_size + c div vsp) = int (c mod vsp) \<and>
           output_ids ! (i * batch_size + c div vsp) < int vocab)"
      by auto
  next
    assume r: "c div vsp = b \<and>
        (\<exists>i<step. \<not> padding_position (row_input_length input_lengths mx (c div vsp)) mx i \<and>
           output_ids ! (i * batch_size + c div vsp) = int (c mod vsp) \<and>
           output_ids ! (i * batch_size + c div vsp) < int vocab)"
    then obtain i where i: "i < step" "?keep i" "?e i = int (c mod vsp)" by auto
    from i(1) xs have ix: "i \<in> set ?xs" by simp
    from valid [OF ix i(2)]
    have "int (b * vsp) + ?e i = int c \<longleftrightarrow> c div vsp = b \<and> ?e i = int (c mod vsp)"
      by (intro row_address) simp_all
    with r i(3) have "int (b * vsp) + ?e i = int c" by blast
    with ix i(2) show "\<exists>x\<in>set ?xs. ?keep x \<and> int (b * vsp) + ?e x = int c" by blast
  qed
  have "l' ! c =
      (if c div vsp = b \<and>
          (\<exists>i<step. \<not> padding_position (row_input_length input_lengths mx (c div vsp)) mx i \<and>
             output_ids ! (i * batch_size + c div vsp) = int (c mod vsp) \<and>
             output_ids ! (i * batch_size + c div vsp) < int vocab)
       then penalize ty penalty (l ! c) else l ! c)"
    if "c < grid * vsp" for c
    using l'(3) that hit [of c] by auto
  with run l'(1,2) show ?thesis by simp
qed

lemma single_kernel:
  assumes gb: "grid \<le> batch_size"
    and ids: "step * batch_size \<le> length output_ids"
    and len: "length l = grid * vsp" and vv: "vocab \<le> vsp"
    and nn: "\<forall>b<grid. \<forall>i<step.
               \<not> padding_position (row_input_length input_lengths mx b) mx i \<longrightarrow>
               0 \<le> output_ids ! (i * batch_size + b)"
    and stale: "\<forall>b<grid. \<forall>i<step.
               \<not> padding_position (row_input_length input_lengths mx b) mx i \<and>
               \<not> output_ids ! (i * batch_size + b) < int vocab \<longrightarrow>
               \<not> snd (smem b) i < int vocab"
    and bd: "0 < blockDim \<or> step = 0"
  shows "\<exists>l'. applyRepetitionPenalty ty grid blockDim smem l penalty output_ids batch_size
                 vocab vsp input_lengths mx step = Inr l' \<and>
           length l' = grid * vsp \<and>
           (\<forall>c<grid * vsp. l' ! c =
              (if \<exists>i<step.
                    \<not> padding_position (row_input_length input_lengths mx (c div vsp)) mx i \<and>
                    output_ids ! (i * batch_size + c div vsp) = int (c mod vsp) \<and>
                    output_ids ! (i * batch_size + c div vsp) < int vocab
               then penalize ty penalty (l ! c) else l ! c))"
proof -
  let ?blk = "applyRepetitionPenalty_block ty blockDim smem penalty output_ids batch_size
      vocab vsp input_lengths mx step"
  let ?hit = "\<lambda>c. \<exists>i<step.
      \<not> padding_position (row_input_length input_lengths mx (c div vsp)) mx i \<and>
      output_ids ! (i * batch_size + c div vsp) = int (c mod vsp) \<and>
      output_ids ! (i * batch_size + c div vsp) < int vocab"
  let ?h = "\<lambda>c::nat. penalize ty penalty"
  have blocks: "if \<exists>b<grid. False then fold ?blk [0..<grid] (Inr l) = Inl AssertionFailed
      else \<exists>l'. fold ?blk [0..<grid] (Inr l) = Inr l' \<and> length l' = grid * vsp \<and>
             (\<forall>c<grid * vsp. l' ! c =
                (if c div vsp < grid \<and> ?hit c then ?h c (l ! c) else l ! c))"
  proof (rule fold_blocks)
    show "if False then ?blk b (Inr l0) = Inl AssertionFailed
        else \<exists>l'. ?blk b (Inr l0) = Inr l' \<and> length l' = grid * vsp \<and>
               (\<forall>c<grid * vsp. l' ! c =
                  (if c div vsp = b \<and> ?hit c then ?h c (l0 ! c) else l0 ! c))"
      if "b < grid" "length l0 = grid * vsp" for b l0
    proof (rule single_block [OF that(1) _ ids that(2) vv _ _ bd])
      show "b < batch_size" using that(1) gb by simp
      show "\<forall>i<step. \<not> padding_position (row_input_length input_lengths mx b) mx i \<longrightarrow>
          0 \<le> output_ids ! (i * batch_size + b)"
        using nn that(1) by simp
      show "\<forall>i<step. \<not> padding_position (row_input_length input_lengths mx b) mx i \<and>
          \<not> output_ids ! (i * batch_size + b) < int vocab \<longrightarrow> \<not> snd (smem b) i < int vocab"
        using stale that(1) by simp
    qed
    show "?blk b (Inl e) = Inl e" for b e by (rule single_block_Inl)
    show "length l = grid * vsp" by (rule len)
  qed
  have row: "c div vsp < grid" if "c < grid * vsp" for c
    using that by (simp add: less_mult_imp_div_less)
  from blocks obtain l' where l': "fold ?blk [0..<grid] (Inr l) = Inr l'"
    "length l' = grid * vsp"
    "\<forall>c<grid * vsp. l' ! c = (if c div vsp < grid \<and> ?hit c then ?h c (l ! c) else l ! c)"
    by auto
  have "l' ! c = (if ?hit c then ?h c (l ! c) else l ! c)" if "c < grid * vsp" for c
    using l'(3) that row [OF that] by simp
  with l'(1,2) show ?thesis by (simp add: applyRepetitionPenalty_def)
qed

section \<open>Repetition penalty: the claims\<close>

text \<open>
  Claim C3. Additive repetition penalty: for one row whose history is \<open>[5, 5, 7]\<close>, all
  three positions being considered, over a vocabulary of 10 tokens and with penalty 1,
  \<^verbatim>\<open>invokeBatchApplyRepetitionPenalty\<close> completes and returns the logits with the
  entries 5 and 7 each lowered by exactly 1 (the id 5, which occurs twice, is penalized
  once) and every other entry unchanged.
\<close>

theorem additive_repetition_penalty_example:
  assumes len: "length logits = 10"
    and considered: "\<forall>i<3. \<not> padding_position
           (row_input_length input_lengths max_input_length 0) max_input_length i"
  shows "invokeBatchApplyRepetitionPenalty logits [1] penalty_workspace [5, 5, 7] 1 1 10
           input_lengths max_input_length 3 Additive =
         Inr (logits[5 := logits ! 5 - 1, 7 := logits ! 7 - 1])"
proof -
  let ?ids = "[5, 5, 7 :: int]"
  let ?pad = "padding_position (row_input_length input_lengths max_input_length 0) max_input_length"
  have three: "i = 0 \<or> i = 1 \<or> i = 2" if "i < 3" for i :: nat
    using that by linarith
  have el: "?ids ! (i * 1 + 0) = 5 \<or> ?ids ! (i * 1 + 0) = 7" if "i < 3" for i
    using three [OF that] by auto
  have run: "invokeBatchApplyRepetitionPenalty logits [1] penalty_workspace ?ids 1 1 10
      input_lengths max_input_length 3 Additive =
      batchApplyRepetitionPenalty Additive 1 (min 3 1024) logits [1] penalty_workspace ?ids 1 10
        input_lengths max_input_length 3"
    by (simp add: invokeBatchApplyRepetitionPenalty_def)
  have nofail: "\<not> (\<exists>b<1. \<exists>i<3.
      \<not> padding_position (row_input_length input_lengths max_input_length b) max_input_length i \<and>
      \<not> ?ids ! (i * 1 + b) < int 10)"
  proof
    assume "\<exists>b<1. \<exists>i<3.
      \<not> padding_position (row_input_length input_lengths max_input_length b) max_input_length i \<and>
      \<not> ?ids ! (i * 1 + b) < int 10"
    then obtain b i where bi: "b < (1::nat)" "i < 3" "\<not> ?ids ! (i * 1 + b) < int 10" by blast
    from bi(1) have "b = 0" by simp
    with bi(3) el [OF bi(2)] show False by auto
  qed
  have main: "if \<exists>b<1. \<exists>i<3.
        \<not> padding_position (row_input_length input_lengths max_input_length b) max_input_length i \<and>
        \<not> ?ids ! (i * 1 + b) < int 10
      then batchApplyRepetitionPenalty Additive 1 (min 3 1024) logits [1] penalty_workspace ?ids
             1 10 input_lengths max_input_length 3 = Inl AssertionFailed
      else \<exists>l'. batchApplyRepetitionPenalty Additive 1 (min 3 1024) logits [1]
                   penalty_workspace ?ids 1 10 input_lengths max_input_length 3 = Inr l' \<and>
             length l' = 1 * 10 \<and>
             (\<forall>c<1 * 10. l' ! c =
                (if \<exists>i<3.
                      \<not> padding_position (row_input_length input_lengths max_input_length (c div 10))
                         max_input_length i \<and>
                      ?ids ! (i * 1 + c div 10) = int (c mod 10)
                 then penalize Additive ([1] ! (c div 10)) (logits ! c) else logits ! c))"
  proof (rule batch_kernel)
    show "\<forall>b<1. \<forall>i<3.
        \<not> padding_position (row_input_length input_lengths max_input_length b) max_input_length i \<longrightarrow>
        0 \<le> ?ids ! (i * 1 + b)"
    proof (intro allI impI)
      fix b i :: nat
      assume "b < 1" "i < 3"
      then show "0 \<le> ?ids ! (i * 1 + b)" using el [of i] by auto
    qed
    show "(1::nat) \<le> 1" by simp
    show "3 * 1 \<le> length ?ids" by simp
    show "length logits = 1 * 10" using len by simp
    show "0 < min (3::nat) 1024 \<or> (3::nat) = 0" by simp
  qed
  then have "\<exists>l'. batchApplyRepetitionPenalty Additive 1 (min 3 1024) logits [1]
                   penalty_workspace ?ids 1 10 input_lengths max_input_length 3 = Inr l' \<and>
             length l' = 1 * 10 \<and>
             (\<forall>c<1 * 10. l' ! c =
                (if \<exists>i<3.
                      \<not> padding_position (row_input_length input_lengths max_input_length (c div 10))
                         max_input_length i \<and>
                      ?ids ! (i * 1 + c div 10) = int (c mod 10)
                 then penalize Additive ([1] ! (c div 10)) (logits ! c) else logits ! c))"
    using nofail by (simp only: if_False)
  then obtain l' where l':
    "batchApplyRepetitionPenalty Additive 1 (min 3 1024) logits [1] penalty_workspace ?ids 1 10
       input_lengths max_input_length 3 = Inr l'"
    "length l' = 1 * 10"
    "\<forall>c<1 * 10. l' ! c =
       (if \<exists>i<3.
             \<not> padding_position (row_input_length input_lengths max_input_length (c div 10))
                max_input_length i \<and>
             ?ids ! (i * 1 + c div 10) = int (c mod 10)
        then penalize Additive ([1] ! (c div 10)) (logits ! c) else logits ! c)"
    by blast
  have hit: "(\<exists>i<3. \<not> ?pad i \<and> ?ids ! (i * 1 + 0) = int c) \<longleftrightarrow> c = 5 \<or> c = 7" for c :: nat
  proof
    assume "\<exists>i<3. \<not> ?pad i \<and> ?ids ! (i * 1 + 0) = int c"
    then obtain i where "i < 3" "?ids ! (i * 1 + 0) = int c" by blast
    with el [of i] show "c = 5 \<or> c = 7" by auto
  next
    assume "c = 5 \<or> c = 7"
    then show "\<exists>i<3. \<not> ?pad i \<and> ?ids ! (i * 1 + 0) = int c"
    proof
      assume "c = 5"
      with considered show ?thesis by (intro exI [of _ 0]) simp
    next
      assume "c = 7"
      with considered show ?thesis by (intro exI [of _ 2]) simp
    qed
  qed
  have "l' = logits[5 := logits ! 5 - 1, 7 := logits ! 7 - 1]"
  proof (rule nth_equalityI)
    show "length l' = length (logits[5 := logits ! 5 - 1, 7 := logits ! 7 - 1])"
      using l'(2) len by simp
    fix c
    assume "c < length l'"
    with l'(2) have c: "c < 10" by simp
    then have "c div 10 = 0" "c mod 10 = c" by simp_all
    with l'(3) c have "l' ! c =
        (if \<exists>i<3. \<not> ?pad i \<and> ?ids ! (i * 1 + 0) = int c
         then penalize Additive ([1] ! 0) (logits ! c) else logits ! c)"
      by simp
    then have "l' ! c = (if c = 5 \<or> c = 7 then logits ! c - 1 else logits ! c)"
      by (simp only: hit penalize.simps nth_Cons_0)
    then show "l' ! c = logits[5 := logits ! 5 - 1, 7 := logits ! 7 - 1] ! c"
      using c len by (simp add: nth_list_update)
  qed
  with run l'(1) show ?thesis by simp
qed

text \<open>The theorem on the logits \<open>0, ..., 9\<close>.\<close>

theorem additive_repetition_penalty_example_witness:
  "invokeBatchApplyRepetitionPenalty [0, 1, 2, 3, 4, 5, 6, 7, 8, 9] [1] (\<lambda>_. (\<lambda>_. 0, \<lambda>_. 0))
     [5, 5, 7] 1 1 10 None 0 3 Additive =
   Inr [0, 1, 2, 3, 4, 4, 6, 6, 8, 9]"
  using additive_repetition_penalty_example [of "[0, 1, 2, 3, 4, 5, 6, 7, 8, 9]" None 0
      "\<lambda>_. (\<lambda>_. 0, \<lambda>_. 0)"]
  by (simp add: padding_position_def row_input_length_def)



text \<open>
  Against claim C6 as stated (both kernels skip a history id at or beyond the vocabulary
  size, without failing an assertion): on the history \<open>[5]\<close> over a vocabulary of two
  tokens the batched kernel fails its assertion.
\<close>

theorem repetition_penalty_batched_asserts:
  "invokeBatchApplyRepetitionPenalty [0, 0] [1] (\<lambda>_. (\<lambda>_. 0, \<lambda>_. 0)) [5] 1 1 2 None 0 1
     Additive = Inl AssertionFailed"
proof -
  have np: "\<not> padding_position (row_input_length None 0 b) 0 i" for b i
    by (simp add: padding_position_def)
  have fail: "\<exists>b<1. \<exists>i<1. \<not> padding_position (row_input_length None 0 b) 0 i \<and>
      \<not> [5 :: int] ! (i * 1 + b) < int 2"
    using np by (intro exI [of _ 0]) simp
  have "if \<exists>b<1. \<exists>i<1. \<not> padding_position (row_input_length None 0 b) 0 i \<and>
        \<not> [5 :: int] ! (i * 1 + b) < int 2
      then batchApplyRepetitionPenalty Additive 1 (min 1 1024) [0, 0] [1]
             (\<lambda>_. (\<lambda>_. 0, \<lambda>_. 0)) [5] 1 2 None 0 1 = Inl AssertionFailed
      else \<exists>l'. batchApplyRepetitionPenalty Additive 1 (min 1 1024) [0, 0] [1]
                   (\<lambda>_. (\<lambda>_. 0, \<lambda>_. 0)) [5] 1 2 None 0 1 = Inr l' \<and>
             length l' = 1 * 2 \<and>
             (\<forall>c<1 * 2. l' ! c =
                (if \<exists>i<1. \<not> padding_position (row_input_length None 0 (c div 2)) 0 i \<and>
                      [5 :: int] ! (i * 1 + c div 2) = int (c mod 2)
                 then penalize Additive ([1] ! (c div 2)) ([0, 0] ! c) else [0, 0] ! c))"
  proof (rule batch_kernel)
    show "\<forall>b<1. \<forall>i<1. \<not> padding_position (row_input_length None 0 b) 0 i \<longrightarrow>
        0 \<le> [5 :: int] ! (i * 1 + b)"
      by simp
    show "(1::nat) \<le> 1" by simp
    show "1 * 1 \<le> length [5 :: int]" by simp
    show "length [0, 0 :: real] = 1 * 2" by simp
    show "0 < min (1::nat) 1024 \<or> (1::nat) = 0" by simp
  qed
  with fail have "batchApplyRepetitionPenalty Additive 1 (min 1 1024) [0, 0] [1]
      (\<lambda>_. (\<lambda>_. 0, \<lambda>_. 0)) [5] 1 2 None 0 1 = Inl AssertionFailed"
    by (simp only: if_True)
  then show ?thesis by (simp add: invokeBatchApplyRepetitionPenalty_def)
qed

text \<open>
  The single-penalty kernel contains no assertion: none of its steps ends with
  \<open>AssertionFailed\<close>.
\<close>

lemma fold_avoids:
  assumes "\<And>x s. s \<noteq> Inl E \<Longrightarrow> f x s \<noteq> Inl E" and "s \<noteq> Inl E"
  shows "fold f xs s \<noteq> Inl E"
  using assms(2) by (induction xs arbitrary: s) (simp_all add: assms(1))

lemma single_read_no_assertion:
  assumes "st \<noteq> Inl AssertionFailed"
  shows "applyRepetitionPenalty_read ty l p output_ids batch_size b vocab vsp il mx i st \<noteq>
           Inl AssertionFailed"
  using assms
  by (auto simp: applyRepetitionPenalty_read_def rd_def split: sum.splits prod.splits if_splits)

lemma single_write_no_assertion:
  assumes "st \<noteq> Inl AssertionFailed"
  shows "applyRepetitionPenalty_write sc b vocab vsp il mx i st \<noteq> Inl AssertionFailed"
  using assms
  by (auto simp: applyRepetitionPenalty_write_def wr_def split: sum.splits if_splits)

lemma single_block_no_assertion:
  assumes "st \<noteq> Inl AssertionFailed"
  shows "applyRepetitionPenalty_block ty blockDim smem penalty output_ids batch_size vocab vsp
           input_lengths mx step b st \<noteq> Inl AssertionFailed"
proof (cases st)
  case (Inl e)
  with assms show ?thesis by (simp add: applyRepetitionPenalty_block_def)
next
  case (Inr l)
  let ?il = "row_input_length input_lengths mx b"
  let ?xs = "schedule blockDim step"
  let ?read = "applyRepetitionPenalty_read ty l penalty output_ids batch_size b vocab vsp ?il mx"
  have r: "fold ?read ?xs (Inr (smem b)) \<noteq> Inl AssertionFailed"
    by (rule fold_avoids) (simp_all add: single_read_no_assertion)
  have w: "fold (applyRepetitionPenalty_write sc b vocab vsp ?il mx) ?xs (Inr l) \<noteq>
      Inl AssertionFailed" for sc
    by (rule fold_avoids) (simp_all add: single_write_no_assertion)
  have "applyRepetitionPenalty_block ty blockDim smem penalty output_ids batch_size vocab vsp
      input_lengths mx step b (Inr l) =
      (case fold ?read ?xs (Inr (smem b)) of
         Inl e \<Rightarrow> Inl e
       | Inr sc \<Rightarrow> fold (applyRepetitionPenalty_write sc b vocab vsp ?il mx) ?xs (Inr l))"
    unfolding applyRepetitionPenalty_block_def Let_def block_stride_loop by simp
  with r w Inr show ?thesis by (simp split: sum.splits)
qed

lemma single_kernel_no_assertion:
  "applyRepetitionPenalty ty grid blockDim smem l penalty output_ids batch_size vocab vsp
     input_lengths mx step \<noteq> Inl AssertionFailed"
  unfolding applyRepetitionPenalty_def
  by (rule fold_avoids) (simp_all add: single_block_no_assertion)

lemma invoke_single_no_assertion:
  "invokeApplyRepetitionPenalty smem l penalty output_ids batch_size local_batch_size vocab vsp
     input_lengths mx step ty \<noteq> Inl AssertionFailed"
  by (cases ty) (simp_all add: invokeApplyRepetitionPenalty_def single_kernel_no_assertion)

text \<open>
  Claim C6, amended. Let a history hold, at a considered position, a token id at or
  beyond \<open>vocab_size\<close>, all considered ids being non-negative. The batched kernel
  (additive or multiplicative) does not skip the entry: its first loop reaches
  \<^verbatim>\<open>assert(penalty_index < vocab_size)\<close> with a false condition, which, the
  assertion being compiled in, ends the kernel. The single-penalty kernel fails no
  assertion, whatever its scratch holds. If moreover the scratch index slot of every such
  entry holds a value at or beyond \<open>vocab_size\<close> as the block starts, the single-penalty
  kernel completes and changes no logit for these entries: a logit is penalized exactly
  when its column is the id of a considered position and lies in the vocabulary.
\<close>

theorem repetition_penalty_out_of_vocabulary:
  assumes lb: "local_batch_size \<le> batch_size"
    and ids: "step * batch_size \<le> length output_ids"
    and len: "length logits = local_batch_size * vocab_size"
    and len1: "length logits_padded = local_batch_size * vocab_size_padd"
    and vv: "vocab_size \<le> vocab_size_padd"
    and nn: "\<forall>b<local_batch_size. \<forall>i<step.
        \<not> padding_position (row_input_length input_lengths max_input_length b) max_input_length i \<longrightarrow>
        0 \<le> output_ids ! (i * batch_size + b)"
    and b: "b < local_batch_size" and i: "i < step"
    and considered:
      "\<not> padding_position (row_input_length input_lengths max_input_length b) max_input_length i"
    and beyond: "int vocab_size \<le> output_ids ! (i * batch_size + b)"
    and ty: "penalty_type \<noteq> NoPenalty"
  shows "invokeBatchApplyRepetitionPenalty logits penalties penalty_workspace output_ids
           batch_size local_batch_size vocab_size input_lengths max_input_length step
           penalty_type = Inl AssertionFailed \<and>
         invokeApplyRepetitionPenalty smem logits_padded penalty output_ids batch_size
           local_batch_size vocab_size vocab_size_padd input_lengths max_input_length step
           penalty_type \<noteq> Inl AssertionFailed \<and>
         ((\<forall>b<local_batch_size. \<forall>i<step.
             \<not> padding_position (row_input_length input_lengths max_input_length b)
                max_input_length i \<and>
             int vocab_size \<le> output_ids ! (i * batch_size + b) \<longrightarrow>
             int vocab_size \<le> snd (smem b) i) \<longrightarrow>
          (\<exists>out. invokeApplyRepetitionPenalty smem logits_padded penalty output_ids batch_size
              local_batch_size vocab_size vocab_size_padd input_lengths max_input_length step
              penalty_type = Inr out \<and>
            length out = length logits_padded \<and>
            (\<forall>r<local_batch_size. \<forall>v<vocab_size_padd.
               out ! (r * vocab_size_padd + v) =
                 (if \<exists>k<step.
                       \<not> padding_position (row_input_length input_lengths max_input_length r)
                          max_input_length k \<and>
                       output_ids ! (k * batch_size + r) = int v \<and> v < vocab_size
                  then penalize penalty_type penalty (logits_padded ! (r * vocab_size_padd + v))
                  else logits_padded ! (r * vocab_size_padd + v)))))"
proof (intro conjI impI)
  let ?pad = "\<lambda>b. padding_position (row_input_length input_lengths max_input_length b)
      max_input_length"
  let ?blockDim = "min step 1024"
  have bd: "0 < ?blockDim \<or> step = 0" by auto
  have fail: "\<exists>b<local_batch_size. \<exists>i<step. \<not> ?pad b i \<and>
      \<not> output_ids ! (i * batch_size + b) < int vocab_size"
    using b i considered beyond by (intro exI [of _ b] conjI exI [of _ i]) simp_all
  have batched: "batchApplyRepetitionPenalty ty local_batch_size ?blockDim logits penalties
      penalty_workspace output_ids batch_size vocab_size input_lengths max_input_length step =
      Inl AssertionFailed" for ty
    using batch_kernel [OF lb ids len nn bd, of ty penalties penalty_workspace] fail
    by (simp only: if_True)
  show "invokeBatchApplyRepetitionPenalty logits penalties penalty_workspace output_ids
      batch_size local_batch_size vocab_size input_lengths max_input_length step
      penalty_type = Inl AssertionFailed"
    using ty batched by (cases penalty_type) (simp_all add: invokeBatchApplyRepetitionPenalty_def)
  show "invokeApplyRepetitionPenalty smem logits_padded penalty output_ids batch_size
      local_batch_size vocab_size vocab_size_padd input_lengths max_input_length step
      penalty_type \<noteq> Inl AssertionFailed"
    by (rule invoke_single_no_assertion)
  assume stale: "\<forall>b<local_batch_size. \<forall>i<step.
      \<not> padding_position (row_input_length input_lengths max_input_length b)
         max_input_length i \<and>
      int vocab_size \<le> output_ids ! (i * batch_size + b) \<longrightarrow>
      int vocab_size \<le> snd (smem b) i"
  have stale': "\<forall>b<local_batch_size. \<forall>i<step. \<not> ?pad b i \<and>
      \<not> output_ids ! (i * batch_size + b) < int vocab_size \<longrightarrow>
      \<not> snd (smem b) i < int vocab_size"
    using stale by (simp add: not_less)
  have run: "invokeApplyRepetitionPenalty smem logits_padded penalty output_ids batch_size
      local_batch_size vocab_size vocab_size_padd input_lengths max_input_length step
      penalty_type =
      applyRepetitionPenalty penalty_type local_batch_size ?blockDim smem logits_padded penalty
        output_ids batch_size vocab_size vocab_size_padd input_lengths max_input_length step"
    using ty by (cases penalty_type) (simp_all add: invokeApplyRepetitionPenalty_def)
  from single_kernel [OF lb ids len1 vv nn stale' bd, of penalty_type penalty]
  obtain l' where l':
    "applyRepetitionPenalty penalty_type local_batch_size ?blockDim smem logits_padded penalty
       output_ids batch_size vocab_size vocab_size_padd input_lengths max_input_length step =
       Inr l'"
    "length l' = local_batch_size * vocab_size_padd"
    "\<forall>c<local_batch_size * vocab_size_padd. l' ! c =
         (if \<exists>i<step. \<not> ?pad (c div vocab_size_padd) i \<and>
               output_ids ! (i * batch_size + c div vocab_size_padd) =
                 int (c mod vocab_size_padd) \<and>
               output_ids ! (i * batch_size + c div vocab_size_padd) < int vocab_size
          then penalize penalty_type penalty (logits_padded ! c)
          else logits_padded ! c)"
    by blast
  have cell: "l' ! (r * vocab_size_padd + v) =
      (if \<exists>k<step. \<not> ?pad r k \<and> output_ids ! (k * batch_size + r) = int v \<and> v < vocab_size
       then penalize penalty_type penalty (logits_padded ! (r * vocab_size_padd + v))
       else logits_padded ! (r * vocab_size_padd + v))"
    if r: "r < local_batch_size" and v: "v < vocab_size_padd" for r v
  proof -
    let ?c = "r * vocab_size_padd + v"
    have c: "?c < local_batch_size * vocab_size_padd"
      using mult_Suc_le [OF r, of vocab_size_padd] v by linarith
    have dm: "?c div vocab_size_padd = r" "?c mod vocab_size_padd = v" using v by simp_all
    from l'(3) c have "l' ! ?c =
        (if \<exists>i<step. \<not> ?pad (?c div vocab_size_padd) i \<and>
              output_ids ! (i * batch_size + ?c div vocab_size_padd) =
                int (?c mod vocab_size_padd) \<and>
              output_ids ! (i * batch_size + ?c div vocab_size_padd) < int vocab_size
         then penalize penalty_type penalty (logits_padded ! ?c)
         else logits_padded ! ?c)"
      by blast
    then have "l' ! ?c =
        (if \<exists>i<step. \<not> ?pad r i \<and> output_ids ! (i * batch_size + r) = int v \<and>
              output_ids ! (i * batch_size + r) < int vocab_size
         then penalize penalty_type penalty (logits_padded ! ?c)
         else logits_padded ! ?c)"
      by (simp only: dm)
    moreover have "(\<exists>i<step. \<not> ?pad r i \<and> output_ids ! (i * batch_size + r) = int v \<and>
          output_ids ! (i * batch_size + r) < int vocab_size) \<longleftrightarrow>
        (\<exists>k<step. \<not> ?pad r k \<and> output_ids ! (k * batch_size + r) = int v \<and> v < vocab_size)"
      by auto
    ultimately show ?thesis by (simp only:)
  qed
  show "\<exists>out. invokeApplyRepetitionPenalty smem logits_padded penalty output_ids batch_size
              local_batch_size vocab_size vocab_size_padd input_lengths max_input_length step
              penalty_type = Inr out \<and>
            length out = length logits_padded \<and>
            (\<forall>r<local_batch_size. \<forall>v<vocab_size_padd.
               out ! (r * vocab_size_padd + v) =
                 (if \<exists>k<step.
                       \<not> padding_position (row_input_length input_lengths max_input_length r)
                          max_input_length k \<and>
                       output_ids ! (k * batch_size + r) = int v \<and> v < vocab_size
                  then penalize penalty_type penalty (logits_padded ! (r * vocab_size_padd + v))
                  else logits_padded ! (r * vocab_size_padd + v)))"
    using run l'(1,2) len1 cell by (intro exI [of _ l']) simp
qed

text \<open>The theorem on the history \<open>[9]\<close> over a vocabulary of two tokens.\<close>

theorem repetition_penalty_out_of_vocabulary_witness:
  "invokeBatchApplyRepetitionPenalty [3, 4] [1] (\<lambda>_. (\<lambda>_. 0, \<lambda>_. 0)) [9] 1 1 2 None 0 1
     Multiplicative = Inl AssertionFailed \<and>
   (\<exists>out. invokeApplyRepetitionPenalty (\<lambda>_. (\<lambda>_. 0, \<lambda>_. 7)) [3, 4, 5] 1 [9] 1 1 2 3 None 0 1
            Multiplicative = Inr out \<and> out ! 0 = 3 \<and> out ! 1 = 4 \<and> out ! 2 = 5)"
proof -
  have np: "\<not> padding_position (row_input_length None 0 0) 0 0"
    by (simp add: padding_position_def)
  have one: "k = 0" if "k < 1" for k :: nat using that by simp
  have nn: "\<forall>b<1. \<forall>i<1. \<not> padding_position (row_input_length None 0 b) 0 i \<longrightarrow>
      0 \<le> [9 :: int] ! (i * 1 + b)"
    by simp
  have stale: "\<forall>b<1. \<forall>i<1. \<not> padding_position (row_input_length None 0 b) 0 i \<and>
      int 2 \<le> [9 :: int] ! (i * 1 + b) \<longrightarrow>
      int 2 \<le> snd ((\<lambda>_. (\<lambda>_. 0 :: real, \<lambda>_. 7 :: int)) b) i"
    by simp
  have three: "v = 0 \<or> v = 1 \<or> v = 2" if "v < 3" for v :: nat using that by linarith
  from repetition_penalty_out_of_vocabulary [where local_batch_size = 1 and batch_size = 1
      and step = 1 and output_ids = "[9]" and logits = "[3, 4]"
      and logits_padded = "[3, 4, 5]" and vocab_size = 2 and vocab_size_padd = 3
      and input_lengths = None and max_input_length = 0 and b = 0 and i = 0
      and penalties = "[1]" and penalty = 1 and penalty_type = Multiplicative
      and penalty_workspace = "\<lambda>_. (\<lambda>_. 0, \<lambda>_. 0)" and smem = "\<lambda>_. (\<lambda>_. 0, \<lambda>_. 7)",
      OF _ _ _ _ _ nn _ _ np] stale
  have r: "invokeBatchApplyRepetitionPenalty [3, 4] [1] (\<lambda>_. (\<lambda>_. 0, \<lambda>_. 0)) [9] 1 1 2 None 0 1
      Multiplicative = Inl AssertionFailed \<and>
    (\<exists>out. invokeApplyRepetitionPenalty (\<lambda>_. (\<lambda>_. 0, \<lambda>_. 7)) [3, 4, 5] 1 [9] 1 1 2 3 None 0 1
        Multiplicative = Inr out \<and>
      length out = length [3, 4, 5 :: real] \<and>
      (\<forall>r<1. \<forall>v<3. out ! (r * 3 + v) =
         (if \<exists>k<1. \<not> padding_position (row_input_length None 0 r) 0 k \<and>
               [9 :: int] ! (k * 1 + r) = int v \<and> v < 2
          then penalize Multiplicative 1 ([3, 4, 5] ! (r * 3 + v))
          else [3, 4, 5] ! (r * 3 + v))))"
    by simp
  then obtain out where out:
    "invokeApplyRepetitionPenalty (\<lambda>_. (\<lambda>_. 0, \<lambda>_. 7)) [3, 4, 5] 1 [9] 1 1 2 3 None 0 1
        Multiplicative = Inr out"
    "\<forall>r<1. \<forall>v<3. out ! (r * 3 + v) =
         (if \<exists>k<1. \<not> padding_position (row_input_length None 0 r) 0 k \<and>
               [9 :: int] ! (k * 1 + r) = int v \<and> v < 2
          then penalize Multiplicative 1 ([3, 4, 5] ! (r * 3 + v))
          else [3, 4, 5] ! (r * 3 + v))"
    by blast
  have nohit: "\<not> (\<exists>k<1. \<not> padding_position (row_input_length None 0 0) 0 k \<and>
      [9 :: int] ! (k * 1 + 0) = int v \<and> v < 2)" for v :: nat
    by auto
  have "out ! v = [3, 4, 5] ! v" if "v < 3" for v
  proof -
    from out(2) that have "out ! (0 * 3 + v) =
        (if \<exists>k<1. \<not> padding_position (row_input_length None 0 0) 0 k \<and>
              [9 :: int] ! (k * 1 + 0) = int v \<and> v < 2
         then penalize Multiplicative 1 ([3, 4, 5] ! (0 * 3 + v))
         else [3, 4, 5] ! (0 * 3 + v))"
      by blast
    with nohit [of v] show ?thesis by simp
  qed
  from this [of 0] this [of 1] this [of 2] have "out ! 0 = 3 \<and> out ! 1 = 4 \<and> out ! 2 = 5"
    by simp
  with r out(1) show ?thesis by blast
qed

lemma schedule_one: "schedule (Suc 0) (Suc 0) = [0]"
proof -
  have "stride_indices (Suc 0) (Suc 0) (0 + Suc 0) = []"
    by (subst stride_indices.simps) simp
  then have "stride_indices (Suc 0) (Suc 0) 0 = [0]"
    by (subst stride_indices.simps) simp
  then show ?thesis by (simp add: schedule_def)
qed

text \<open>
  Claim C7 (the logit of a token id that appears at no considered history position is
  left unchanged) fails on the single-penalty kernel. Its first loop skips an id at or
  beyond \<open>vocab_size\<close> before it writes \<^verbatim>\<open>penalty_indices[index]\<close>; its second loop
  then tests and uses that slot, which still holds what the shared memory held at launch.
  Here the history is \<open>[7]\<close> over four tokens, the slot holds 2 and the value slot 42:
  the logit of token 2, which is not in the history, becomes 42.
\<close>

theorem repetition_penalty_stale_scratch:
  "invokeApplyRepetitionPenalty (\<lambda>_. (\<lambda>_. 42, \<lambda>_. 2)) [0, 0, 0, 0] 1 [7] 1 1 4 4 None 0 1
     Additive = Inr [0, 0, 42, 0]"
proof -
  have b: "min (1::nat) 1024 = Suc 0" by simp
  have il: "row_input_length None 0 0 = 0" by (simp add: row_input_length_def)
  have phase1: "applyRepetitionPenalty_read Additive [0, 0, 0, 0] 1 [7] (Suc 0) 0 4 4 0 0 0
      (Inr (\<lambda>_. 42, \<lambda>_. 2)) = Inr (\<lambda>_. 42, \<lambda>_. 2)"
    by (simp add: applyRepetitionPenalty_read_def rd_def padding_position_def)
  have phase2: "applyRepetitionPenalty_write (\<lambda>_. 42, \<lambda>_. 2) 0 4 4 0 0 0
      (Inr [0, 0, 0, 0]) = Inr [0, 0, 42, 0]"
    by (simp add: applyRepetitionPenalty_write_def wr_def padding_position_def)
  show ?thesis
    unfolding invokeApplyRepetitionPenalty_def applyRepetitionPenalty_def
      applyRepetitionPenalty_block_def Let_def block_stride_loop
    by (simp add: b il schedule_one phase1 phase2)
qed

section \<open>Temperature penalty, version 2 kernel\<close>

lemma stride_loop_once:
  assumes "0 < stride" and "bound \<le> index + stride"
  shows "stride_loop body stride bound index s = (if index < bound then body index s else s)"
proof (cases "index < bound")
  case True
  have "stride_loop body stride bound (index + stride) (body index s) = body index s"
    using assms(2) by (subst stride_loop.simps) simp
  with True assms(1) show ?thesis
    by (subst stride_loop.simps) simp
next
  case False
  then show ?thesis by (subst stride_loop.simps) simp
qed

lemma fold_store_vec:
  assumes "k + n \<le> length l"
  shows "length (fold (\<lambda>j l. l[k + j := f j]) [0..<n] l) = length l \<and>
         fold (\<lambda>j l. l[k + j := f j]) [0..<n] l ! c =
           (if k \<le> c \<and> c < k + n then f (c - k) else l ! c)"
  using assms
proof (induction n)
  case 0
  then show ?case by auto
next
  case (Suc n)
  then have ih: "length (fold (\<lambda>j l. l[k + j := f j]) [0..<n] l) = length l"
    "fold (\<lambda>j l. l[k + j := f j]) [0..<n] l ! c =
       (if k \<le> c \<and> c < k + n then f (c - k) else l ! c)"
    by simp_all
  have kn: "k + n < length (fold (\<lambda>j l. l[k + j := f j]) [0..<n] l)"
    using ih(1) Suc.prems by simp
  show ?case
  proof (cases "c = k + n")
    case True
    with kn ih(1) show ?thesis by simp
  next
    case False
    with ih show ?thesis by (auto simp: nth_list_update)
  qed
qed

lemma v2_body_nth:
  assumes "row + i + vec_size \<le> length l"
  shows "length (batchApplyTemperaturePenalty_v2_body vec_size MAX_T_VAL scale vocab_size row i l) =
           length l \<and>
         batchApplyTemperaturePenalty_v2_body vec_size MAX_T_VAL scale vocab_size row i l ! c =
           (if c \<in> {row + i..<row + i + vec_size}
            then (if c - row < vocab_size then l ! c * scale else - MAX_T_VAL)
            else l ! c)"
proof -
  let ?f = "\<lambda>j. map (\<lambda>c. if i + c < vocab_size
        then map (\<lambda>j. l ! (row + i + j)) [0..<vec_size] ! c * scale else - MAX_T_VAL)
      [0..<vec_size] ! j"
  have body: "batchApplyTemperaturePenalty_v2_body vec_size MAX_T_VAL scale vocab_size row i l =
      fold (\<lambda>j l. l[row + i + j := ?f j]) [0..<vec_size] l"
    by (simp add: batchApplyTemperaturePenalty_v2_body_def Let_def)
  have f: "?f (c - (row + i)) = (if c - row < vocab_size then l ! c * scale else - MAX_T_VAL)"
    if "row + i \<le> c" "c < row + i + vec_size"
  proof -
    from that have j: "c - (row + i) < vec_size" by simp
    moreover from that have "i + (c - (row + i)) = c - row" "row + i + (c - (row + i)) = c"
      by simp_all
    ultimately show ?thesis by simp
  qed
  from fold_store_vec [OF assms, of ?f c] f body show ?thesis by auto
qed

lemma vec_chunk:
  assumes "0 < vec" and "vsp mod vec = 0" and "t * vec < (vsp::nat)"
  shows "t * vec + vec \<le> vsp"
proof -
  define m where "m = vsp div vec"
  have m: "vsp = m * vec"
    using assms(2) div_mult_mod_eq [of vsp vec] by (simp add: m_def)
  with assms(1,3) have "t < m" by simp
  then have "t * vec + vec \<le> m * vec" by (rule mult_Suc_le)
  with m show ?thesis by simp
qed

lemma vec_cells:
  assumes vec: "0 < vec" and dv: "vsp mod vec = 0" and cover: "vsp \<le> n * vec"
  shows "(\<exists>t\<in>set [0..<n]. c \<in> (if t * vec < vsp then {row + t * vec..<row + t * vec + vec} else {}))
         \<longleftrightarrow> c \<in> {row..<row + vsp}"
proof
  assume "\<exists>t\<in>set [0..<n]. c \<in> (if t * vec < vsp then {row + t * vec..<row + t * vec + vec} else {})"
  then obtain t where t: "t * vec < vsp" "row + t * vec \<le> c" "c < row + t * vec + vec"
    by (auto split: if_splits)
  from vec_chunk [OF vec dv t(1)] t(2,3) show "c \<in> {row..<row + vsp}" by simp
next
  assume c: "c \<in> {row..<row + vsp}"
  let ?t = "(c - row) div vec"
  have le: "?t * vec \<le> c - row" by simp
  have "c - row < ?t * vec + vec"
    using vec div_mult_mod_eq [of "c - row" vec] mod_less_divisor [OF vec, of "c - row"]
    by linarith
  moreover from c have rc: "row \<le> c" "c - row < vsp" by auto
  ultimately have in_chunk: "row + ?t * vec \<le> c" "c < row + ?t * vec + vec"
    using le by linarith+
  from le rc(2) have tv: "?t * vec < vsp" by linarith
  with cover have "?t * vec < n * vec" by linarith
  then have "?t < n" using vec by simp
  with tv in_chunk show "\<exists>t\<in>set [0..<n].
      c \<in> (if t * vec < vsp then {row + t * vec..<row + t * vec + vec} else {})"
    by (intro bexI [of _ ?t]) simp_all
qed

lemma vec_cells_disjoint:
  assumes "0 < vec" and "t \<noteq> (t'::nat)"
  shows "{row + t * vec..<row + t * vec + vec} \<inter> {row + t' * vec..<row + t' * vec + vec} = {}"
proof -
  have disj: "{row + a * vec..<row + a * vec + vec} \<inter> {row + b * vec..<row + b * vec + vec} = {}"
    if "a < b" for a b :: nat
  proof -
    from that have "a * vec + vec \<le> b * vec" by (rule mult_Suc_le)
    then show ?thesis by auto
  qed
  from assms(2) consider "t < t'" | "t' < t" by linarith
  then show ?thesis
  proof cases
    case 1
    then show ?thesis by (rule disj)
  next
    case 2
    from disj [OF 2] show ?thesis by blast
  qed
qed

lemma fold_store_length: "length (fold (\<lambda>j l. l[g j := f j]) xs l) = length l"
  by (induction xs arbitrary: l) simp_all

lemma v2_body_length:
  "length (batchApplyTemperaturePenalty_v2_body vec_size MAX_T_VAL scale vocab_size row i l) =
     length l"
  by (simp add: batchApplyTemperaturePenalty_v2_body_def Let_def fold_store_length)

lemma v2_row:
  assumes vec: "0 < vec" and dv: "vsp mod vec = 0" and cover: "vsp \<le> gridx * blockDim * vec"
    and len: "length l = N" and row: "row + vsp \<le> N" and c: "c < N"
  shows "length (launch gridx blockDim
           (\<lambda>blockIdx threadIdx.
              (let vi = blockIdx * blockDim + threadIdx;
                   scale = sc;
                   step = gridx * blockDim * vec
               in stride_loop
                    (batchApplyTemperaturePenalty_v2_body vec MAX_T_VAL scale vocab_size row)
                    step vsp (vi * vec))) l) = N \<and>
         launch gridx blockDim
           (\<lambda>blockIdx threadIdx.
              (let vi = blockIdx * blockDim + threadIdx;
                   scale = sc;
                   step = gridx * blockDim * vec
               in stride_loop
                    (batchApplyTemperaturePenalty_v2_body vec MAX_T_VAL scale vocab_size row)
                    step vsp (vi * vec))) l ! c =
           (if c \<in> {row..<row + vsp}
            then (if c - row < vocab_size then l ! c * sc else - MAX_T_VAL)
            else l ! c)"
proof -
  let ?n = "gridx * blockDim"
  let ?body = "batchApplyTemperaturePenalty_v2_body vec MAX_T_VAL sc vocab_size row"
  let ?item = "\<lambda>t l. if t * vec < vsp then ?body (t * vec) l else l"
  let ?cells = "\<lambda>t. if t * vec < vsp then {row + t * vec..<row + t * vec + vec} else {}"
  let ?h = "\<lambda>c x. if c - row < vocab_size then x * sc else - MAX_T_VAL"
  have thread: "stride_loop ?body (?n * vec) vsp (t * vec) s = ?item t s" if "t \<in> set [0..<?n]" for t s
  proof -
    from that have "t < ?n" by simp
    then have npos: "0 < ?n" by linarith
    have "0 < ?n * vec" by (rule mult_pos_pos [OF npos vec])
    moreover from cover have "vsp \<le> t * vec + ?n * vec" by simp
    ultimately show ?thesis by (rule stride_loop_once)
  qed
  have run: "launch gridx blockDim
           (\<lambda>blockIdx threadIdx.
              (let vi = blockIdx * blockDim + threadIdx;
                   scale = sc;
                   step = gridx * blockDim * vec
               in stride_loop
                    (batchApplyTemperaturePenalty_v2_body vec MAX_T_VAL scale vocab_size row)
                    step vsp (vi * vec))) l = fold ?item [0..<?n] l"
    unfolding launch_def Let_def div_mult_mod_eq
    by (rule fold_cong) (use thread in auto)
  have chunk: "row + t * vec + vec \<le> N" if "t * vec < vsp" for t
    using vec_chunk [OF vec dv that] row by simp
  have lenN: "length (fold ?item xs buf) = N" if "length buf = N" for xs buf
    using that by (induction xs arbitrary: buf) (simp_all add: v2_body_length)
  have "fold ?item [0..<?n] l ! c =
      (if \<exists>t\<in>set [0..<?n]. c \<in> ?cells t then ?h c (l ! c) else l ! c)"
  proof (rule fold_cells [where N = N])
    show "distinct [0..<?n]" by simp
    show "?cells t \<inter> ?cells t' = {}" if "t \<noteq> t'" for t t'
      using vec_cells_disjoint [OF vec that, of row] by simp
    show "length (?item t buf) = length buf" for t buf
      by (simp add: v2_body_length)
    show "?item t buf ! c = (if c \<in> ?cells t then ?h c (buf ! c) else buf ! c)"
      if "length buf = N" for t buf c
      using v2_body_nth [of row "t * vec" vec buf MAX_T_VAL sc vocab_size c] chunk [of t] that
      by simp
  qed (use len c in auto)
  with run vec_cells [OF vec dv cover, of c row] lenN [OF len, of "[0..<?n]"]
  show ?thesis by simp
qed

lemma row_cells_disjoint:
  assumes "b \<noteq> (b'::nat)"
  shows "{b * w..<b * w + w} \<inter> {b' * w..<b' * w + w} = {}"
proof -
  have disj: "{a * w..<a * w + w} \<inter> {a' * w..<a' * w + w} = {}" if "a < a'" for a a' :: nat
  proof -
    from that have "a * w + w \<le> a' * w" by (rule mult_Suc_le)
    then show ?thesis by auto
  qed
  from assms consider "b < b'" | "b' < b" by linarith
  then show ?thesis
  proof cases
    case 1
    then show ?thesis by (rule disj)
  next
    case 2
    from disj [OF 2] show ?thesis by blast
  qed
qed

lemma cell_has_row:
  assumes "c < g * (w::nat)"
  shows "\<exists>b\<in>set [0..<g]. c \<in> {b * w..<b * w + w}"
proof -
  from assms have w: "0 < w" by (cases w) simp_all
  have "c div w < g" using assms by (simp add: less_mult_imp_div_less)
  moreover have "c div w * w \<le> c" by simp
  moreover have "c < c div w * w + w"
    using div_mult_mod_eq [of c w] mod_less_divisor [OF w, of c] by linarith
  ultimately show ?thesis
    by (intro bexI [of _ "c div w"]) simp_all
qed

lemma cell_row:
  assumes "c \<in> {b * w..<b * w + (w::nat)}"
  shows "b = c div w" and "c - b * w = c mod w"
proof -
  from assms have "b * w \<le> c" and lt: "c - b * w < w" by auto
  then have "c = b * w + (c - b * w)" by simp
  then have "c div w = (b * w + (c - b * w)) div w" "c mod w = (b * w + (c - b * w)) mod w"
    by simp_all
  with lt show "b = c div w" and "c - b * w = c mod w" by simp_all
qed

lemma v2_kernel:
  assumes vec: "0 < vec" and dv: "vsp mod vec = 0" and cover: "vsp \<le> gridx * blockDim * vec"
    and len: "length l = gridy * vsp" and c: "c < gridy * vsp"
  shows "length (batchApplyTemperaturePenalty_v2 vec gridx gridy blockDim MAX_T_VAL l bias
           temperatures batch_size vocab_size vsp) = gridy * vsp \<and>
         batchApplyTemperaturePenalty_v2 vec gridx gridy blockDim MAX_T_VAL l bias
           temperatures batch_size vocab_size vsp ! c =
           (if c mod vsp < vocab_size
            then l ! c * (1 / (temperatures ! (c div vsp) + eps))
            else - MAX_T_VAL)"
proof -
  let ?row = "\<lambda>bi. launch gridx blockDim
      (\<lambda>blockIdx threadIdx.
         (let vi = blockIdx * blockDim + threadIdx;
              scale = 1 / (temperatures ! bi + eps);
              step = gridx * blockDim * vec
          in stride_loop
               (batchApplyTemperaturePenalty_v2_body vec MAX_T_VAL scale vocab_size (bi * vsp))
               step vsp (vi * vec)))"
  let ?h = "\<lambda>c x. if c mod vsp < vocab_size
      then x * (1 / (temperatures ! (c div vsp) + eps)) else - MAX_T_VAL"
  let ?N = "gridy * vsp"
  have run: "batchApplyTemperaturePenalty_v2 vec gridx gridy blockDim MAX_T_VAL l bias
      temperatures batch_size vocab_size vsp = fold ?row [0..<gridy] l"
    by (simp add: batchApplyTemperaturePenalty_v2_def)
  have rowN: "bi * vsp + vsp \<le> ?N" if "bi \<in> set [0..<gridy]" for bi
    using that mult_Suc_le [of bi gridy vsp] by simp
  have row_len: "length (?row bi buf) = length buf" for bi buf
    unfolding launch_def Let_def
    by (intro fold_length) (simp add: stride_loop_fold fold_length v2_body_length)
  have lenN: "length (fold ?row xs buf) = ?N" if "set xs \<subseteq> set [0..<gridy]" "length buf = ?N" for xs buf
    using that
  proof (induction xs arbitrary: buf)
    case Nil
    then show ?case by simp
  next
    case (Cons x xs)
    then have "length (?row x buf) = ?N" by (simp only: row_len)
    with Cons show ?case by simp
  qed
  have "fold ?row [0..<gridy] l ! c =
      (if \<exists>bi\<in>set [0..<gridy]. c \<in> {bi * vsp..<bi * vsp + vsp} then ?h c (l ! c) else l ! c)"
  proof (rule fold_cells [where N = ?N])
    show "distinct [0..<gridy]" by simp
    show "{bi * vsp..<bi * vsp + vsp} \<inter> {bi' * vsp..<bi' * vsp + vsp} = {}" if "bi \<noteq> bi'" for bi bi'
      using that by (rule row_cells_disjoint)
    show "length (?row bi buf) = length buf" for bi buf
      by (rule row_len)
    show "?row bi buf ! c = (if c \<in> {bi * vsp..<bi * vsp + vsp} then ?h c (buf ! c) else buf ! c)"
      if "bi \<in> set [0..<gridy]" "length buf = ?N" "c < ?N" for bi buf c
    proof -
      from v2_row [OF vec dv cover that(2) rowN [OF that(1)] that(3),
          of "1 / (temperatures ! bi + eps)" MAX_T_VAL vocab_size]
      have r: "?row bi buf ! c =
          (if c \<in> {bi * vsp..<bi * vsp + vsp}
           then (if c - bi * vsp < vocab_size then buf ! c * (1 / (temperatures ! bi + eps))
                 else - MAX_T_VAL)
           else buf ! c)"
        by simp
      show ?thesis
      proof (cases "c \<in> {bi * vsp..<bi * vsp + vsp}")
        case True
        from cell_row [OF True] have e: "bi = c div vsp" "c - bi * vsp = c mod vsp" .
        from r True show ?thesis by (simp only: if_True flip: e)
      next
        case False
        with r show ?thesis by (simp only: if_False)
      qed
    qed
    show "length l = ?N" by (rule len)
    show "c < ?N" by (rule c)
  qed
  with run cell_has_row [OF c] lenN [OF _ len, of "[0..<gridy]"] show ?thesis by simp
qed

lemma invoke_v2_nth:
  assumes len: "length l = batch_size * vsp" and c: "c < batch_size * vsp"
  shows "length (invokeBatchApplyTemperaturePenalty_v2 MAX_T_VAL l bias temperatures batch_size
           vocab_size vsp) = batch_size * vsp \<and>
         invokeBatchApplyTemperaturePenalty_v2 MAX_T_VAL l bias temperatures batch_size
           vocab_size vsp ! c =
           (if c mod vsp < vocab_size
            then l ! c * (1 / (temperatures ! (c div vsp) + eps))
            else - MAX_T_VAL)"
proof -
  have k: "length (batchApplyTemperaturePenalty_v2 vec ((vsp + 256 * vec - 1) div (256 * vec))
        batch_size 256 MAX_T_VAL l bias temperatures batch_size vocab_size vsp) =
        batch_size * vsp \<and>
      batchApplyTemperaturePenalty_v2 vec ((vsp + 256 * vec - 1) div (256 * vec))
        batch_size 256 MAX_T_VAL l bias temperatures batch_size vocab_size vsp ! c =
        (if c mod vsp < vocab_size
         then l ! c * (1 / (temperatures ! (c div vsp) + eps))
         else - MAX_T_VAL)"
    if vec: "0 < vec" and dv: "vsp mod vec = 0" for vec
  proof (rule v2_kernel [OF vec dv _ len c])
    from vec have "0 < 256 * vec" by simp
    from ceil_div_covers [OF this, of vsp]
    show "vsp \<le> (vsp + 256 * vec - 1) div (256 * vec) * 256 * vec"
      by (simp add: mult.commute mult.left_commute)
  qed
  show ?thesis
  proof (cases "vsp mod 4 = 0")
    case True
    with k [of 4] show ?thesis
      by (simp add: invokeBatchApplyTemperaturePenalty_v2_def Let_def)
  next
    case n4: False
    show ?thesis
    proof (cases "vsp mod 2 = 0")
      case True
      with n4 k [of 2] show ?thesis
        by (simp add: invokeBatchApplyTemperaturePenalty_v2_def Let_def)
    next
      case False
      with n4 k [of 1] show ?thesis
        by (simp add: invokeBatchApplyTemperaturePenalty_v2_def Let_def)
    qed
  qed
qed

section \<open>Temperature penalty, scalar batched kernel and \<^verbatim>\<open>half2\<close> specialization\<close>

lemma batch_temperature_body_nth:
  assumes "index < length logits" "c < length logits"
  shows "batchApplyTemperaturePenalty_body MAX_T_VAL bias inv_temps vocab_size vsp index logits ! c =
     (if c \<in> {index}
      then (if c mod vsp < vocab_size
            then (logits ! c + (case bias of None \<Rightarrow> 0 | Some b \<Rightarrow> b ! (c mod vsp))) *
                 inv_temps (c div vsp)
            else - MAX_T_VAL)
      else logits ! c)"
  using assms
  by (cases bias) (auto simp: batchApplyTemperaturePenalty_body_def Let_def)

lemma batch_temperature_nth:
  assumes "0 < gridDim" "0 < blockDim" "length logits = m * vsp" "c < m * vsp"
  shows "length (batchApplyTemperaturePenalty gridDim blockDim smem MAX_T_VAL logits bias
           temperatures m vocab_size vsp) = m * vsp \<and>
         batchApplyTemperaturePenalty gridDim blockDim smem MAX_T_VAL logits bias
           temperatures m vocab_size vsp ! c =
           (if c mod vsp < vocab_size
            then (logits ! c + (case bias of None \<Rightarrow> 0 | Some b \<Rightarrow> b ! (c mod vsp))) *
                 inv_temperatures (smem (c mod (gridDim * blockDim) div blockDim)) temperatures
                   blockDim m (c div vsp)
            else - MAX_T_VAL)"
proof -
  let ?n = "gridDim * blockDim"
  let ?body = "\<lambda>blk. batchApplyTemperaturePenalty_body MAX_T_VAL bias
      (inv_temperatures (smem blk) temperatures blockDim m) vocab_size vsp"
  let ?item = "\<lambda>index. ?body (index mod ?n div blockDim) index"
  let ?h = "\<lambda>c x. if c mod vsp < vocab_size
      then (x + (case bias of None \<Rightarrow> 0 | Some b \<Rightarrow> b ! (c mod vsp))) *
           inv_temperatures (smem (c mod ?n div blockDim)) temperatures blockDim m (c div vsp)
      else - MAX_T_VAL"
  have n: "0 < ?n" using assms by simp
  have run: "batchApplyTemperaturePenalty gridDim blockDim smem MAX_T_VAL logits bias
      temperatures m vocab_size vsp = fold ?item (schedule ?n (m * vsp)) logits"
    unfolding batchApplyTemperaturePenalty_def mult.commute [of blockDim gridDim]
    by (rule launch_stride_loop) simp
  have item_len: "length (?item i buf) = length buf" for i buf
    by (simp add: batchApplyTemperaturePenalty_body_def Let_def)
  have "fold ?item (schedule ?n (m * vsp)) logits ! c =
      (if \<exists>i\<in>set (schedule ?n (m * vsp)). c \<in> {i} then ?h c (logits ! c) else logits ! c)"
  proof (rule fold_cells [where N = "m * vsp"])
    show "distinct (schedule ?n (m * vsp))" by (rule distinct_schedule)
    show "length (?item i buf) = length buf" for i buf by (rule item_len)
    show "?item i buf ! c = (if c \<in> {i} then ?h c (buf ! c) else buf ! c)"
      if "i \<in> set (schedule ?n (m * vsp))" "length buf = m * vsp" "c < m * vsp" for i buf c
    proof -
      from that n have "i < length buf" by (simp add: set_schedule)
      from batch_temperature_body_nth [OF this, of c] that(2,3) show ?thesis by auto
    qed
  qed (use assms in auto)
  moreover have "length (fold ?item (schedule ?n (m * vsp)) logits) = m * vsp"
    using assms(3) by (simp add: fold_length item_len)
  ultimately show ?thesis using run n assms(4) by (simp add: set_schedule)
qed

lemma pair_index:
  fixes i h :: nat
  shows "(2 * i) mod (2 * h) = 2 * (i mod h)" and "(2 * i + 1) mod (2 * h) = 2 * (i mod h) + 1"
proof -
  show a: "(2 * i) mod (2 * h) = 2 * (i mod h)" by simp
  show "(2 * i + 1) mod (2 * h) = 2 * (i mod h) + 1"
  proof (cases "h = 0")
    case True
    then show ?thesis by simp
  next
    case False
    then have "i mod h < h" by simp
    then have lt: "2 * (i mod h) + 1 < 2 * h" by linarith
    define q r where "q = i div h" and "r = i mod h"
    have e: "i = h * q + r" by (simp add: q_def r_def)
    have "2 * i + 1 = 2 * h * q + (2 * r + 1)"
      by (subst e) (simp add: algebra_simps)
    then have "(2 * i + 1) mod (2 * h) = (2 * h * (i div h) + (2 * (i mod h) + 1)) mod (2 * h)"
      by (simp only: q_def r_def)
    also have "\<dots> = (2 * (i mod h) + 1) mod (2 * h)"
      by (rule mod_mult_self4)
    also have "\<dots> = 2 * (i mod h) + 1" using lt by simp
    finally show ?thesis .
  qed
qed

lemma half2_body_nth:
  assumes even_padded: "vsp = 2 * hp" and "2 * index + 1 < length logits" and "c < length logits"
  shows "applyTemperaturePenalty_half2_body bias tinv vocab_size vsp index logits ! c =
     (if c \<in> (if index mod hp < vocab_size div 2 then {2 * index, 2 * index + 1} else {})
      then (logits ! c + (case bias of None \<Rightarrow> 0 | Some b \<Rightarrow> b ! (c mod vsp))) * tinv
      else logits ! c)"
proof (cases "index mod hp < vocab_size div 2")
  case False
  then show ?thesis
    by (simp add: applyTemperaturePenalty_half2_body_def Let_def even_padded)
next
  case True
  have hp: "vsp div 2 = hp" by (simp add: even_padded)
  have i0: "(2 * index) mod vsp = 2 * (index mod hp)"
    and i1: "(2 * index + 1) mod vsp = 2 * (index mod hp) + 1"
    unfolding even_padded by (rule pair_index)+
  from i1 have i1': "Suc (2 * index) mod vsp = Suc (2 * (index mod hp))" by simp
  consider "c = 2 * index" | "c = 2 * index + 1" | "c \<noteq> 2 * index" "c \<noteq> 2 * index + 1"
    by blast
  then show ?thesis
  proof cases
    case 1
    with True assms(2) show ?thesis
      by (cases bias) (simp_all add: applyTemperaturePenalty_half2_body_def Let_def hp i0)
  next
    case 2
    with True assms(2) show ?thesis
      by (cases bias) (simp_all add: applyTemperaturePenalty_half2_body_def Let_def hp i1')
  next
    case 3
    with True show ?thesis
      by (cases bias) (simp_all add: applyTemperaturePenalty_half2_body_def Let_def hp)
  qed
qed

lemma half2_body_length:
  "length (applyTemperaturePenalty_half2_body bias tinv vocab_size vsp index logits) =
     length logits"
  by (cases bias) (simp_all add: applyTemperaturePenalty_half2_body_def Let_def)

lemma half2_nth:
  assumes "0 < gridDim" "0 < blockDim" and len: "length logits = m * vsp"
    and even_padded: "vsp = 2 * hp" and c: "c < m * vsp"
  shows "length (applyTemperaturePenalty_half2 gridDim blockDim logits bias tinv m vocab_size vsp) =
           m * vsp \<and>
         applyTemperaturePenalty_half2 gridDim blockDim logits bias tinv m vocab_size vsp ! c =
           (if c div 2 mod hp < vocab_size div 2
            then (logits ! c + (case bias of None \<Rightarrow> 0 | Some b \<Rightarrow> b ! (c mod vsp))) * tinv
            else logits ! c)"
proof -
  let ?n = "gridDim * blockDim"
  let ?body = "applyTemperaturePenalty_half2_body bias tinv vocab_size vsp"
  let ?cells = "\<lambda>i. if i mod hp < vocab_size div 2 then {2 * i, 2 * i + 1} else {}"
  let ?h = "\<lambda>c x. (x + (case bias of None \<Rightarrow> 0 | Some b \<Rightarrow> b ! (c mod vsp))) * tinv"
  let ?xs = "schedule ?n (m * hp)"
  have n: "0 < ?n" using assms by simp
  have hp: "vsp div 2 = hp" by (simp add: even_padded)
  have run: "applyTemperaturePenalty_half2 gridDim blockDim logits bias tinv m vocab_size vsp =
      fold ?body ?xs logits"
    unfolding applyTemperaturePenalty_half2_def mult.commute [of blockDim gridDim] hp
    by (rule launch_stride_loop) simp
  have xs: "set ?xs = {j. j < m * hp}" using n by (rule set_schedule)
  have "fold ?body ?xs logits ! c =
      (if \<exists>i\<in>set ?xs. c \<in> ?cells i then ?h c (logits ! c) else logits ! c)"
  proof (rule fold_cells [where N = "m * vsp"])
    show "distinct ?xs" by (rule distinct_schedule)
    show "?cells i \<inter> ?cells j = {}" if "i \<noteq> j" for i j
      using that by auto
    show "length (?body i buf) = length buf" for i buf by (rule half2_body_length)
    show "?body i buf ! c = (if c \<in> ?cells i then ?h c (buf ! c) else buf ! c)"
      if "i \<in> set ?xs" "length buf = m * vsp" "c < m * vsp" for i buf c
    proof -
      from that(1) xs have "i < m * hp" by simp
      then have "2 * i + 1 < m * vsp" unfolding even_padded by simp
      with that(2,3) half2_body_nth [OF even_padded, of i buf c] show ?thesis by simp
    qed
    show "length logits = m * vsp" by (rule len)
    show "c < m * vsp" by (rule c)
  qed
  moreover have "(\<exists>i\<in>set ?xs. c \<in> ?cells i) \<longleftrightarrow> c div 2 mod hp < vocab_size div 2"
  proof
    assume "\<exists>i\<in>set ?xs. c \<in> ?cells i"
    then obtain i where "i mod hp < vocab_size div 2" "c = 2 * i \<or> c = 2 * i + 1"
      by (auto split: if_splits)
    moreover from this(2) have "c div 2 = i" by auto
    ultimately show "c div 2 mod hp < vocab_size div 2" by simp
  next
    assume r: "c div 2 mod hp < vocab_size div 2"
    from c have "c div 2 < m * hp" unfolding even_padded by simp
    moreover have "c = 2 * (c div 2) \<or> c = 2 * (c div 2) + 1" by presburger
    ultimately show "\<exists>i\<in>set ?xs. c \<in> ?cells i"
      using r xs by (intro bexI [of _ "c div 2"]) auto
  qed
  moreover have "length (fold ?body ?xs logits) = m * vsp"
    using len by (simp add: fold_length half2_body_length)
  ultimately show ?thesis using run by simp
qed

section \<open>Temperature penalty: vectorized and scalar paths\<close>

text \<open>
  Against claim C2 as stated (the vectorized paths return the buffer of the scalar path,
  with the same bias handling and the same sentinel values). First, with a bias of 1 the
  scalar batched kernel returns 2 at the first logit and the version-2 kernel, which never
  reads the bias, returns 1. Second, on a row of two vocabulary and two padding columns
  the scalar kernel stores \<open>- 65504\<close> in the padding and the \<^verbatim>\<open>half2\<close>
  specialization, whose store is inside the test on the vocabulary index, leaves the 3
  that was there. Third, with three rows and blocks of two threads the scalar batched
  kernel never writes the inverse temperature of the third row: it multiplies by what
  the shared memory held (0 here) and returns 0 where the version-2 kernel returns 1.
\<close>

theorem vectorized_temperature_disagreement:
  "invokeBatchApplyTemperaturePenalty False (\<lambda>_ _. 0) (\<lambda>_ _. (0, 0)) 100 [1, 2] (Some [1, 1])
     [999999 / 1000000] 1 2 2 \<noteq>
   Inr (invokeBatchApplyTemperaturePenalty_v2 100 [1, 2] (Some [1, 1]) [999999 / 1000000] 1 2 2) \<and>
   invokeApplyTemperaturePenalty True 65504 [1, 2, 3, 4] None (999999 / 1000000) 1 2 4 \<noteq>
   invokeApplyTemperaturePenalty False 65504 [1, 2, 3, 4] None (999999 / 1000000) 1 2 4 \<and>
   invokeBatchApplyTemperaturePenalty False (\<lambda>_ _. 0) (\<lambda>_ _. (0, 0)) 100 [1, 1, 1, 1, 1, 1] None
     [999999 / 1000000, 999999 / 1000000, 999999 / 1000000] 3 2 2 \<noteq>
   Inr (invokeBatchApplyTemperaturePenalty_v2 100 [1, 1, 1, 1, 1, 1] None
     [999999 / 1000000, 999999 / 1000000, 999999 / 1000000] 3 2 2)"
proof (intro conjI)
  let ?t = "999999 / 1000000 :: real"
  have scale: "1 / (?t + eps) = 1" by (simp add: eps_def)
  show "invokeBatchApplyTemperaturePenalty False (\<lambda>_ _. 0) (\<lambda>_ _. (0, 0)) 100 [1, 2] (Some [1, 1])
     [?t] 1 2 2 \<noteq>
   Inr (invokeBatchApplyTemperaturePenalty_v2 100 [1, 2] (Some [1, 1]) [?t] 1 2 2)"
  proof -
    let ?s = "batchApplyTemperaturePenalty 1 2 (\<lambda>_ _. 0) 100 [1, 2] (Some [1, 1]) [?t] 1 2 2"
    let ?v = "invokeBatchApplyTemperaturePenalty_v2 100 [1, 2] (Some [1, 1]) [?t] 1 2 2"
    have run: "invokeBatchApplyTemperaturePenalty False (\<lambda>_ _. 0) (\<lambda>_ _. (0, 0)) 100 [1, 2]
        (Some [1, 1]) [?t] 1 2 2 = Inr ?s"
      by (simp add: invokeBatchApplyTemperaturePenalty_def Let_def)
    from batch_temperature_nth [of 1 2 "[1, 2]" 1 2 0 "\<lambda>_ _. 0" 100 "Some [1, 1]" "[?t]" 2]
    have a: "?s ! 0 = 2" by (simp add: inv_temperatures_def scale)
    from invoke_v2_nth [of "[1, 2]" 1 2 0 100 "Some [1, 1]" "[?t]" 2]
    have b: "?v ! 0 = 1" by (simp add: scale)
    have "?s \<noteq> ?v"
    proof
      assume "?s = ?v"
      then have "?s ! 0 = ?v ! 0" by (rule arg_cong)
      then show False unfolding a b by simp
    qed
    with run show ?thesis by simp
  qed
  show "invokeApplyTemperaturePenalty True 65504 [1, 2, 3, 4] None ?t 1 2 4 \<noteq>
   invokeApplyTemperaturePenalty False 65504 [1, 2, 3, 4] None ?t 1 2 4"
  proof -
    let ?h = "applyTemperaturePenalty_half2 1 4 [1, 2, 3, 4] None (1 / (?t + eps)) 1 2 4"
    let ?s = "applyTemperaturePenalty 1 4 65504 [1, 2, 3, 4] None (1 / (?t + eps)) 1 2 4"
    have rh: "invokeApplyTemperaturePenalty True 65504 [1, 2, 3, 4] None ?t 1 2 4 = Inr ?h"
      by (simp add: invokeApplyTemperaturePenalty_def Let_def)
    have rs: "invokeApplyTemperaturePenalty False 65504 [1, 2, 3, 4] None ?t 1 2 4 = Inr ?s"
      by (simp add: invokeApplyTemperaturePenalty_def Let_def)
    have "length ?h = 1 * 4 \<and>
        ?h ! 2 =
        (if (2::nat) div 2 mod 2 < 2 div 2
         then ([1, 2, 3, 4] ! 2 + (case None of None \<Rightarrow> 0 | Some b \<Rightarrow> b ! (2 mod 4))) *
              (1 / (?t + eps))
         else [1, 2, 3, 4] ! 2)"
      by (rule half2_nth) simp_all
    then have a: "?h ! 2 = 3" by simp
    from applyTemperaturePenalty_nth [of 1 4 "[1, 2, 3, 4]" 1 4 2 65504 None
        "1 / (?t + eps)" 2]
    have b: "?s ! 2 = - 65504" by simp
    have "?h \<noteq> ?s"
    proof
      assume "?h = ?s"
      then have "?h ! 2 = ?s ! 2" by (rule arg_cong)
      then show False unfolding a b by simp
    qed
    with rh rs show ?thesis by simp
  qed
  show "invokeBatchApplyTemperaturePenalty False (\<lambda>_ _. 0) (\<lambda>_ _. (0, 0)) 100 [1, 1, 1, 1, 1, 1] None
     [?t, ?t, ?t] 3 2 2 \<noteq>
   Inr (invokeBatchApplyTemperaturePenalty_v2 100 [1, 1, 1, 1, 1, 1] None [?t, ?t, ?t] 3 2 2)"
  proof -
    let ?s = "batchApplyTemperaturePenalty 3 2 (\<lambda>_ _. 0) 100 [1, 1, 1, 1, 1, 1] None [?t, ?t, ?t] 3 2 2"
    let ?v = "invokeBatchApplyTemperaturePenalty_v2 100 [1, 1, 1, 1, 1, 1] None [?t, ?t, ?t] 3 2 2"
    have run: "invokeBatchApplyTemperaturePenalty False (\<lambda>_ _. 0) (\<lambda>_ _. (0, 0)) 100
        [1, 1, 1, 1, 1, 1] None [?t, ?t, ?t] 3 2 2 = Inr ?s"
      by (simp add: invokeBatchApplyTemperaturePenalty_def Let_def)
    from batch_temperature_nth [of 3 2 "[1, 1, 1, 1, 1, 1]" 3 2 4 "\<lambda>_ _. 0" 100 None
        "[?t, ?t, ?t]" 2]
    have a: "?s ! 4 = 0" by (simp add: inv_temperatures_def)
    from invoke_v2_nth [of "[1, 1, 1, 1, 1, 1]" 3 2 4 100 None "[?t, ?t, ?t]" 2]
    have b: "?v ! 4 = 1" by (simp add: scale)
    have "?s \<noteq> ?v"
    proof
      assume "?s = ?v"
      then have "?s ! 4 = ?v ! 4" by (rule arg_cong)
      then show False unfolding a b by simp
    qed
    with run show ?thesis by simp
  qed
qed

lemma grid_positive:
  assumes "0 < batch_size" and "0 < (vsp::nat)"
  shows "0 < min vsp 1024" and "0 < min (batch_size * vsp div min vsp 1024) 65536"
proof -
  show block: "0 < min vsp 1024" using assms(2) by simp
  from assms(1) have "vsp \<le> batch_size * vsp" by simp
  then have "min vsp 1024 \<le> batch_size * vsp"
    by (rule order_trans [OF min.cobounded1])
  then have "0 < batch_size * vsp div min vsp 1024"
    using block by (simp add: div_greater_zero_iff)
  then show "0 < min (batch_size * vsp div min vsp 1024) 65536" by simp
qed

text \<open>
  Claim C2, amended. For a logits buffer of \<open>batch_size\<close> rows and a non-empty padded
  vocabulary: (a) with no bias and at most \<open>min(vocab_size_padded, 1024)\<close> rows, the
  version-2 kernel (vector width 4, 2 or 1, as the padded width allows) returns the same
  buffer as the scalar batched kernel, the sentinel values of the padding columns
  included; (b) for even vocabulary sizes the \<^verbatim>\<open>half2\<close> specialization returns, at
  every column \<open>v < vocab_size\<close> of every row, the value the scalar kernel returns,
  with the same handling of the bias. The arithmetic is exact, so that agreement up to
  rounding is equality here.
\<close>

theorem vectorized_temperature_agreement:
  assumes len: "length logits = batch_size * vocab_size_padded"
    and pos: "0 < vocab_size_padded"
  shows "(batch_size \<le> min vocab_size_padded 1024 \<and>
          \<not> (is_half \<and> vocab_size mod 2 = 0 \<and> vocab_size_padded mod 2 = 0) \<longrightarrow>
          invokeBatchApplyTemperaturePenalty is_half smem smem_h2 MAX_T_VAL logits None
            temperatures batch_size vocab_size vocab_size_padded =
          Inr (invokeBatchApplyTemperaturePenalty_v2 MAX_T_VAL logits None temperatures
                 batch_size vocab_size vocab_size_padded)) \<and>
         (vocab_size mod 2 = 0 \<and> vocab_size_padded mod 2 = 0 \<and>
          vocab_size \<le> vocab_size_padded \<and> row < batch_size \<and> v < vocab_size \<longrightarrow>
          (\<exists>h s. invokeApplyTemperaturePenalty True MAX_T_VAL logits bias temperature
                   batch_size vocab_size vocab_size_padded = Inr h \<and>
                 invokeApplyTemperaturePenalty False MAX_T_VAL logits bias temperature
                   batch_size vocab_size vocab_size_padded = Inr s \<and>
                 length h = length s \<and>
                 h ! (row * vocab_size_padded + v) = s ! (row * vocab_size_padded + v)))"
proof (intro conjI impI)
  let ?vsp = vocab_size_padded
  let ?block = "min ?vsp 1024"
  let ?grid = "min (batch_size * ?vsp div ?block) 65536"
  have block: "0 < ?block" using pos by simp
  {
    assume a: "batch_size \<le> min ?vsp 1024 \<and>
        \<not> (is_half \<and> vocab_size mod 2 = 0 \<and> ?vsp mod 2 = 0)"
    let ?s = "batchApplyTemperaturePenalty ?grid ?block smem MAX_T_VAL logits None temperatures
        batch_size vocab_size ?vsp"
    let ?v = "invokeBatchApplyTemperaturePenalty_v2 MAX_T_VAL logits None temperatures
        batch_size vocab_size ?vsp"
    have run: "invokeBatchApplyTemperaturePenalty is_half smem smem_h2 MAX_T_VAL logits None
        temperatures batch_size vocab_size ?vsp = Inr ?s"
      using block a by (auto simp: invokeBatchApplyTemperaturePenalty_def Let_def)
    have "?s = ?v"
    proof (cases "batch_size = 0")
      case True
      then show ?thesis
        by (simp add: batchApplyTemperaturePenalty_def launch_def
            invokeBatchApplyTemperaturePenalty_v2_def batchApplyTemperaturePenalty_v2_def)
    next
      case False
      then have b: "0 < batch_size" by simp
      note g = grid_positive [OF b pos]
      show ?thesis
      proof (rule nth_equalityI)
        show "length ?s = length ?v"
        proof -
          from b pos have "0 < batch_size * ?vsp" by simp
          from batch_temperature_nth [OF g(2) g(1) len this]
            invoke_v2_nth [OF len this] show ?thesis by simp
        qed
        fix c
        assume "c < length ?s"
        moreover have "length ?s = batch_size * ?vsp"
        proof -
          from b pos have "0 < batch_size * ?vsp" by simp
          from batch_temperature_nth [OF g(2) g(1) len this] show ?thesis by simp
        qed
        ultimately have c: "c < batch_size * ?vsp" by simp
        then have "c div ?vsp < batch_size" by (simp add: less_mult_imp_div_less)
        with a have inv: "inv_temperatures sm temperatures ?block batch_size (c div ?vsp) =
            1 / (temperatures ! (c div ?vsp) + eps)" for sm
          by (simp add: inv_temperatures_def)
        from batch_temperature_nth [OF g(2) g(1) len c, of smem MAX_T_VAL None temperatures vocab_size]
        have "?s ! c = (if c mod ?vsp < vocab_size
            then logits ! c * (1 / (temperatures ! (c div ?vsp) + eps)) else - MAX_T_VAL)"
          by (simp add: inv)
        with invoke_v2_nth [OF len c, of MAX_T_VAL None temperatures vocab_size]
        show "?s ! c = ?v ! c" by simp
      qed
    qed
    with run show "invokeBatchApplyTemperaturePenalty is_half smem smem_h2 MAX_T_VAL logits None
        temperatures batch_size vocab_size ?vsp = Inr ?v"
      by simp
  }
  {
    assume a: "vocab_size mod 2 = 0 \<and> ?vsp mod 2 = 0 \<and> vocab_size \<le> ?vsp \<and>
        row < batch_size \<and> v < vocab_size"
    let ?tinv = "1 / (temperature + eps)"
    let ?h = "applyTemperaturePenalty_half2 ?grid ?block logits bias ?tinv batch_size
        vocab_size ?vsp"
    let ?s = "applyTemperaturePenalty ?grid ?block MAX_T_VAL logits bias ?tinv batch_size
        vocab_size ?vsp"
    let ?c = "row * ?vsp + v"
    from a have b: "0 < batch_size" and v: "v < ?vsp" by simp_all
    note g = grid_positive [OF b pos]
    define hp where "hp = ?vsp div 2"
    have ev: "?vsp = 2 * hp" using a unfolding hp_def by presburger
    have c: "?c < batch_size * ?vsp"
      using mult_Suc_le [of row batch_size ?vsp] a v by simp
    have m: "?c mod ?vsp = v" using v by simp
    have cc: "?c = 2 * (row * hp) + v" by (simp add: ev)
    have "?c div 2 = row * hp + v div 2" by (subst cc) simp
    moreover have "v div 2 < hp" using v ev by simp
    ultimately have "?c div 2 mod hp = v div 2" by simp
    moreover have "v div 2 < vocab_size div 2" using a by presburger
    ultimately have inside: "?c div 2 mod hp < vocab_size div 2" by simp
    have rh: "invokeApplyTemperaturePenalty True MAX_T_VAL logits bias temperature
        batch_size vocab_size ?vsp = Inr ?h"
      using block a by (simp add: invokeApplyTemperaturePenalty_def Let_def)
    have rs: "invokeApplyTemperaturePenalty False MAX_T_VAL logits bias temperature
        batch_size vocab_size ?vsp = Inr ?s"
      using block by (simp add: invokeApplyTemperaturePenalty_def Let_def)
    from half2_nth [OF g(2) g(1) len ev c, of bias ?tinv vocab_size] inside
    have h: "length ?h = batch_size * ?vsp"
      "?h ! ?c = (logits ! ?c + (case bias of None \<Rightarrow> 0 | Some b \<Rightarrow> b ! v)) * ?tinv"
      by (simp_all only: m if_True)
    from applyTemperaturePenalty_nth [OF g(2) g(1) len c, of MAX_T_VAL bias ?tinv vocab_size] a
    have s: "?s ! ?c = (logits ! ?c + (case bias of None \<Rightarrow> 0 | Some b \<Rightarrow> b ! v)) * ?tinv"
      by (simp only: m if_True)
    have ls: "length ?s = batch_size * ?vsp"
      unfolding applyTemperaturePenalty_def mult.commute [of ?block ?grid]
      by (subst launch_stride_loop [OF refl])
        (simp add: fold_length applyTemperaturePenalty_body_def Let_def len)
    from rh rs h s ls
    show "\<exists>h s. invokeApplyTemperaturePenalty True MAX_T_VAL logits bias temperature
                   batch_size vocab_size ?vsp = Inr h \<and>
                 invokeApplyTemperaturePenalty False MAX_T_VAL logits bias temperature
                   batch_size vocab_size ?vsp = Inr s \<and>
                 length h = length s \<and>
                 h ! (row * ?vsp + v) = s ! (row * ?vsp + v)"
      by simp
  }
qed

text \<open>The theorem at two rows of two columns.\<close>

theorem vectorized_temperature_agreement_witness:
  "invokeBatchApplyTemperaturePenalty False (\<lambda>_ _. 0) (\<lambda>_ _. (0, 0)) 100 [1, 2, 3, 4] None
     [1, 3] 2 2 2 =
   Inr (invokeBatchApplyTemperaturePenalty_v2 100 [1, 2, 3, 4] None [1, 3] 2 2 2) \<and>
   (\<exists>h s. invokeApplyTemperaturePenalty True 100 [1, 2, 3, 4] (Some [5, 6]) 1 2 2 2 = Inr h \<and>
          invokeApplyTemperaturePenalty False 100 [1, 2, 3, 4] (Some [5, 6]) 1 2 2 2 = Inr s \<and>
          length h = length s \<and> h ! 3 = s ! 3)"
  using vectorized_temperature_agreement [of "[1, 2, 3, 4]" 2 2 False 2 "\<lambda>_ _. 0"
      "\<lambda>_ _. (0, 0)" 100 "[1, 3]" 1 1 "Some [5, 6]" 1]
  by simp

section \<open>Indexed copy\<close>

text \<open>One descriptor: the slots of one buffer pair are copied one after the other.\<close>

lemma copy_pass:
  assumes "distinct (map di ks)"
    and "\<forall>k\<in>set ks. di k < length (mem d)"
    and "s = d \<longrightarrow> (\<forall>k\<in>set ks. \<forall>k'\<in>set ks. si k \<noteq> di k')"
  shows "(\<forall>p. p \<noteq> d \<longrightarrow> fold (\<lambda>k. copy_slot s d (si k) (di k)) ks mem p = mem p) \<and>
         length (fold (\<lambda>k. copy_slot s d (si k) (di k)) ks mem d) = length (mem d) \<and>
         (\<forall>k\<in>set ks. fold (\<lambda>k. copy_slot s d (si k) (di k)) ks mem d ! di k = mem s ! si k) \<and>
         (\<forall>j. j \<notin> di ` set ks \<longrightarrow>
              fold (\<lambda>k. copy_slot s d (si k) (di k)) ks mem d ! j = mem d ! j)"
  using assms
proof (induction ks arbitrary: mem)
  case Nil
  then show ?case by simp
next
  case (Cons k ks)
  let ?pass = "fold (\<lambda>k. copy_slot s d (si k) (di k)) ks"
  define mem1 where "mem1 = copy_slot s d (si k) (di k) mem"
  have m1d: "mem1 d = (mem d)[di k := mem s ! si k]"
    and m1p: "\<And>p. p \<noteq> d \<Longrightarrow> mem1 p = mem p"
    by (simp_all add: mem1_def copy_slot_def)
  have src_kept: "mem1 s ! si k' = mem s ! si k'" if "k' \<in> set (k # ks)" for k'
  proof (cases "s = d")
    case True
    with Cons.prems(3) that have "si k' \<noteq> di k" by auto
    with True m1d show ?thesis by simp
  next
    case False
    with m1p show ?thesis by simp
  qed
  have ih: "(\<forall>p. p \<noteq> d \<longrightarrow> ?pass mem1 p = mem1 p) \<and>
      length (?pass mem1 d) = length (mem1 d) \<and>
      (\<forall>k\<in>set ks. ?pass mem1 d ! di k = mem1 s ! si k) \<and>
      (\<forall>j. j \<notin> di ` set ks \<longrightarrow> ?pass mem1 d ! j = mem1 d ! j)"
  proof (rule Cons.IH)
    show "distinct (map di ks)" using Cons.prems(1) by simp
    show "\<forall>k\<in>set ks. di k < length (mem1 d)" using Cons.prems(2) m1d by simp
    show "s = d \<longrightarrow> (\<forall>k\<in>set ks. \<forall>k'\<in>set ks. si k \<noteq> di k')"
      using Cons.prems(3) by simp
  qed
  have fresh: "di k \<notin> di ` set ks" using Cons.prems(1) by auto
  have dk: "di k < length (mem d)" using Cons.prems(2) by simp
  have unfold: "fold (\<lambda>k. copy_slot s d (si k) (di k)) (k # ks) mem = ?pass mem1"
    by (simp add: mem1_def)
  have "\<forall>p. p \<noteq> d \<longrightarrow> ?pass mem1 p = mem p"
    using ih m1p by simp
  moreover have "length (?pass mem1 d) = length (mem d)"
    using ih m1d by simp
  moreover have "\<forall>k'\<in>set (k # ks). ?pass mem1 d ! di k' = mem s ! si k'"
  proof
    fix k'
    assume k': "k' \<in> set (k # ks)"
    show "?pass mem1 d ! di k' = mem s ! si k'"
    proof (cases "k' \<in> set ks")
      case True
      with ih have "?pass mem1 d ! di k' = mem1 s ! si k'" by simp
      with src_kept [OF k'] show ?thesis by simp
    next
      case False
      with k' have e: "k' = k" by simp
      from ih fresh have "?pass mem1 d ! di k = mem1 d ! di k" by simp
      with m1d dk e show ?thesis by simp
    qed
  qed
  moreover have "\<forall>j. j \<notin> di ` set (k # ks) \<longrightarrow> ?pass mem1 d ! j = mem d ! j"
  proof (intro allI impI)
    fix j
    assume j: "j \<notin> di ` set (k # ks)"
    then have "j \<notin> di ` set ks" "j \<noteq> di k" by auto
    with ih m1d show "?pass mem1 d ! j = mem d ! j" by simp
  qed
  ultimately show ?case unfolding unfold by blast
qed

lemma fold_nth: "fold (\<lambda>i. g (xs ! i)) [0..<length xs] = fold g xs"
proof -
  have "fold g (map (\<lambda>i. xs ! i) [0..<length xs]) = fold (\<lambda>i. g (xs ! i)) [0..<length xs]"
    by (simp add: fold_map comp_def)
  then show ?thesis by (simp add: map_nth)
qed

lemma copy_buffers:
  assumes "distinct (map (\<lambda>c. fst (snd c)) cs)"
    and "\<forall>c\<in>set cs. fst c = fst (snd c) \<or> fst c \<notin> (\<lambda>c. fst (snd c)) ` set cs"
    and "distinct (map di ks)"
    and "\<forall>k\<in>set ks. \<forall>k'\<in>set ks. si k \<noteq> di k'"
    and "\<forall>c\<in>set cs. \<forall>k\<in>set ks. di k < length (mem (fst (snd c)))"
  shows "(\<forall>p. p \<notin> (\<lambda>c. fst (snd c)) ` set cs \<longrightarrow>
            fold (\<lambda>c. fold (\<lambda>k. copy_slot (fst c) (fst (snd c)) (si k) (di k)) ks) cs mem p = mem p) \<and>
         (\<forall>c\<in>set cs.
            length (fold (\<lambda>c. fold (\<lambda>k. copy_slot (fst c) (fst (snd c)) (si k) (di k)) ks) cs mem
                     (fst (snd c))) = length (mem (fst (snd c))) \<and>
            (\<forall>k\<in>set ks.
               fold (\<lambda>c. fold (\<lambda>k. copy_slot (fst c) (fst (snd c)) (si k) (di k)) ks) cs mem
                 (fst (snd c)) ! di k = mem (fst c) ! si k) \<and>
            (\<forall>j. j \<notin> di ` set ks \<longrightarrow>
               fold (\<lambda>c. fold (\<lambda>k. copy_slot (fst c) (fst (snd c)) (si k) (di k)) ks) cs mem
                 (fst (snd c)) ! j = mem (fst (snd c)) ! j))"
  using assms(1,2,5)
proof (induction cs arbitrary: mem)
  case Nil
  then show ?case by simp
next
  case (Cons c cs)
  let ?dst = "\<lambda>c. fst (snd c)"
  let ?pass = "\<lambda>c. fold (\<lambda>k. copy_slot (fst c) (?dst c) (si k) (di k)) ks"
  let ?all = "fold ?pass cs"
  define mem1 where "mem1 = ?pass c mem"
  have first: "(\<forall>p. p \<noteq> ?dst c \<longrightarrow> mem1 p = mem p) \<and>
      length (mem1 (?dst c)) = length (mem (?dst c)) \<and>
      (\<forall>k\<in>set ks. mem1 (?dst c) ! di k = mem (fst c) ! si k) \<and>
      (\<forall>j. j \<notin> di ` set ks \<longrightarrow> mem1 (?dst c) ! j = mem (?dst c) ! j)"
    unfolding mem1_def
  proof (rule copy_pass)
    show "distinct (map di ks)" by (rule assms(3))
    show "\<forall>k\<in>set ks. di k < length (mem (?dst c))" using Cons.prems(3) by simp
    show "fst c = ?dst c \<longrightarrow> (\<forall>k\<in>set ks. \<forall>k'\<in>set ks. si k \<noteq> di k')"
      using assms(4) by simp
  qed
  have other: "?dst c' \<noteq> ?dst c" "fst c' \<noteq> ?dst c" if "c' \<in> set cs" for c'
  proof -
    from Cons.prems(1) have "?dst c \<notin> ?dst ` set cs" by simp
    with that show d: "?dst c' \<noteq> ?dst c" by (metis imageI)
    from Cons.prems(2) that have "fst c' = ?dst c' \<or> fst c' \<notin> ?dst ` set (c # cs)" by simp
    with d show "fst c' \<noteq> ?dst c" by auto
  qed
  have ih: "(\<forall>p. p \<notin> ?dst ` set cs \<longrightarrow> ?all mem1 p = mem1 p) \<and>
      (\<forall>c\<in>set cs.
         length (?all mem1 (?dst c)) = length (mem1 (?dst c)) \<and>
         (\<forall>k\<in>set ks. ?all mem1 (?dst c) ! di k = mem1 (fst c) ! si k) \<and>
         (\<forall>j. j \<notin> di ` set ks \<longrightarrow> ?all mem1 (?dst c) ! j = mem1 (?dst c) ! j))"
  proof (rule Cons.IH)
    show "distinct (map ?dst cs)" using Cons.prems(1) by simp
    show "\<forall>c\<in>set cs. fst c = ?dst c \<or> fst c \<notin> ?dst ` set cs"
      using Cons.prems(2) by auto
    show "\<forall>c\<in>set cs. \<forall>k\<in>set ks. di k < length (mem1 (?dst c))"
      using Cons.prems(3) first other(1) by simp
  qed
  have unfold: "fold ?pass (c # cs) mem = ?all mem1" by (simp add: mem1_def)
  have own: "?dst c \<notin> ?dst ` set cs" using Cons.prems(1) by auto
  have "\<forall>p. p \<notin> ?dst ` set (c # cs) \<longrightarrow> ?all mem1 p = mem p"
    using ih first by simp
  moreover have "\<forall>c'\<in>set (c # cs).
      length (?all mem1 (?dst c')) = length (mem (?dst c')) \<and>
      (\<forall>k\<in>set ks. ?all mem1 (?dst c') ! di k = mem (fst c') ! si k) \<and>
      (\<forall>j. j \<notin> di ` set ks \<longrightarrow> ?all mem1 (?dst c') ! j = mem (?dst c') ! j)"
  proof
    fix c'
    assume c': "c' \<in> set (c # cs)"
    show "length (?all mem1 (?dst c')) = length (mem (?dst c')) \<and>
      (\<forall>k\<in>set ks. ?all mem1 (?dst c') ! di k = mem (fst c') ! si k) \<and>
      (\<forall>j. j \<notin> di ` set ks \<longrightarrow> ?all mem1 (?dst c') ! j = mem (?dst c') ! j)"
    proof (cases "c' \<in> set cs")
      case True
      from first other [OF True] have "mem1 (?dst c') = mem (?dst c')" "mem1 (fst c') = mem (fst c')"
        by simp_all
      with ih True show ?thesis by simp
    next
      case False
      with c' have e: "c' = c" by simp
      from ih own have "?all mem1 (?dst c) = mem1 (?dst c)" by simp
      with first e show ?thesis by simp
    qed
  qed
  ultimately show ?case unfolding unfold by blast
qed

lemma map_slot_index:
  assumes "idx = [] \<or> length idx = count"
  shows "map (slot_index (if idx = [] then None else Some idx)) [0..<count] = named_slots idx count"
proof (cases "idx = []")
  case True
  then show ?thesis by (simp add: named_slots_def slot_index_def map_idI)
next
  case False
  with assms have "length idx = count" by simp
  then have "map (\<lambda>k. idx ! k) [0..<count] = idx" by (auto simp: map_nth)
  moreover have "slot_index (Some idx) = (\<lambda>k. idx ! k)"
    by (rule ext) (simp add: slot_index_def)
  ultimately show ?thesis using False by (simp add: named_slots_def)
qed

text \<open>
  Claim C8, amended. \<^verbatim>\<open>IndexedCopy\<close> fails its check exactly when the two index
  lists differ in length and neither is empty. When the check passes, an empty list
  stands for the identity indices. If then the slots named by the two lists are disjoint,
  the destination indices are pairwise distinct, every named slot lies inside its buffer,
  the destination buffers of the descriptors are pairwise distinct and every source
  buffer is either the destination of its own descriptor or the destination of none, the
  copy completes, and every destination buffer keeps its length, holds at each
  \<open>dst_idx[k]\<close> the contents its source buffer had at \<open>src_idx[k]\<close> before the copy,
  and is unchanged at every slot named in neither list.
\<close>

theorem indexed_copy:
  fixes cpys :: "'p copy list" and mem :: "('p, 'a) memory"
  assumes check: "length src_idx = length dst_idx \<or> src_idx = [] \<or> dst_idx = []"
    and count: "count = max (length src_idx) (length dst_idx)"
    and disjoint: "set (named_slots src_idx count) \<inter> set (named_slots dst_idx count) = {}"
    and dist: "distinct (named_slots dst_idx count)"
    and bufs: "distinct (map (\<lambda>c. fst (snd c)) cpys)"
    and shared: "\<forall>c\<in>set cpys. fst c = fst (snd c) \<or> fst c \<notin> (\<lambda>c. fst (snd c)) ` set cpys"
    and inrange: "\<forall>c\<in>set cpys. \<forall>j\<in>set (named_slots dst_idx count). j < length (mem (fst (snd c)))"
    and inrange_src: "\<forall>c\<in>set cpys. \<forall>j\<in>set (named_slots src_idx count). j < length (mem (fst c))"
  shows "(IndexedCopy xs ys cpys mem = Inl FT_CHECK_failed \<longleftrightarrow>
            \<not> (length xs = length ys \<or> xs = [] \<or> ys = [])) \<and>
         (\<exists>mem'. IndexedCopy src_idx dst_idx cpys mem = Inr mem' \<and>
            (\<forall>c\<in>set cpys.
               length (mem' (fst (snd c))) = length (mem (fst (snd c))) \<and>
               (\<forall>k<count. mem' (fst (snd c)) ! (named_slots dst_idx count ! k) =
                             mem (fst c) ! (named_slots src_idx count ! k)) \<and>
               (\<forall>j. j \<notin> set (named_slots src_idx count) \<union> set (named_slots dst_idx count) \<longrightarrow>
                    mem' (fst (snd c)) ! j = mem (fst (snd c)) ! j)))"
proof
  show "IndexedCopy xs ys cpys mem = Inl FT_CHECK_failed \<longleftrightarrow>
      \<not> (length xs = length ys \<or> xs = [] \<or> ys = [])"
    by (auto simp: IndexedCopy_def)
  let ?dst = "\<lambda>c :: 'p copy. fst (snd c)"
  let ?si = "slot_index (if src_idx = [] then None else Some src_idx)"
  let ?di = "slot_index (if dst_idx = [] then None else Some dst_idx)"
  let ?ks = "[0..<count]"
  let ?pass = "\<lambda>c :: 'p copy. fold (\<lambda>k. copy_slot (fst c) (?dst c) (?si k) (?di k)) ?ks"
  let ?mem' = "fold ?pass cpys mem"
  have ls: "src_idx = [] \<or> length src_idx = count" and ld: "dst_idx = [] \<or> length dst_idx = count"
    using check count by auto
  note ms = map_slot_index [OF ls] and md = map_slot_index [OF ld]
  have nth_s: "named_slots src_idx count ! k = ?si k"
    and nth_d: "named_slots dst_idx count ! k = ?di k" if "k < count" for k
    using that ms [symmetric] md [symmetric] by simp_all
  have set_s: "set (named_slots src_idx count) = ?si ` set ?ks"
    and set_d: "set (named_slots dst_idx count) = ?di ` set ?ks"
    using ms [symmetric] md [symmetric] by (simp_all only: set_map)
  have run: "IndexedCopy src_idx dst_idx cpys mem = Inr ?mem'"
  proof (cases "count = 0")
    case True
    with count check have "IndexedCopy src_idx dst_idx cpys mem = Inr mem"
      by (auto simp: IndexedCopy_def IndexedCopyImpl_def)
    moreover from True have "?mem' = mem" by (induction cpys) simp_all
    ultimately show ?thesis by simp
  next
    case False
    have "fold (\<lambda>i. fold (\<lambda>k. copy_slot (map fst cpys ! i) (map ?dst cpys ! i) (?si k) (?di k)) ?ks)
        [0..<length cpys] mem =
        fold (\<lambda>i. ?pass (cpys ! i)) [0..<length cpys] mem"
      by (rule fold_cong) simp_all
    also have "\<dots> = ?mem'" by (rule fun_cong [OF fold_nth [of ?pass cpys]])
    finally have "invokeIndexedCopy (map fst cpys) (map ?dst cpys) (map (\<lambda>c. snd (snd c)) cpys)
        (if src_idx = [] then None else Some src_idx)
        (if dst_idx = [] then None else Some dst_idx) count (length cpys) mem = ?mem'"
      by (simp add: invokeIndexedCopy_def)
    with False check count show ?thesis
      by (auto simp: IndexedCopy_def IndexedCopyImpl_def Let_def)
  qed
  have main: "(\<forall>p. p \<notin> ?dst ` set cpys \<longrightarrow> ?mem' p = mem p) \<and>
      (\<forall>c\<in>set cpys.
         length (?mem' (?dst c)) = length (mem (?dst c)) \<and>
         (\<forall>k\<in>set ?ks. ?mem' (?dst c) ! ?di k = mem (fst c) ! ?si k) \<and>
         (\<forall>j. j \<notin> ?di ` set ?ks \<longrightarrow> ?mem' (?dst c) ! j = mem (?dst c) ! j))"
  proof (rule copy_buffers [OF bufs shared])
    show "distinct (map ?di ?ks)" using dist md by simp
    show "\<forall>k\<in>set ?ks. \<forall>k'\<in>set ?ks. ?si k \<noteq> ?di k'"
      using disjoint unfolding set_s set_d by blast
    show "\<forall>c\<in>set cpys. \<forall>k\<in>set ?ks. ?di k < length (mem (?dst c))"
      using inrange unfolding set_d by blast
  qed
  have "\<forall>c\<in>set cpys.
      length (?mem' (?dst c)) = length (mem (?dst c)) \<and>
      (\<forall>k<count. ?mem' (?dst c) ! (named_slots dst_idx count ! k) =
                    mem (fst c) ! (named_slots src_idx count ! k)) \<and>
      (\<forall>j. j \<notin> set (named_slots src_idx count) \<union> set (named_slots dst_idx count) \<longrightarrow>
           ?mem' (?dst c) ! j = mem (?dst c) ! j)"
  proof
    fix c
    assume c: "c \<in> set cpys"
    with main have m: "length (?mem' (?dst c)) = length (mem (?dst c))"
      "\<forall>k\<in>set ?ks. ?mem' (?dst c) ! ?di k = mem (fst c) ! ?si k"
      "\<forall>j. j \<notin> ?di ` set ?ks \<longrightarrow> ?mem' (?dst c) ! j = mem (?dst c) ! j"
      by blast+
    have "\<forall>k<count. ?mem' (?dst c) ! (named_slots dst_idx count ! k) =
        mem (fst c) ! (named_slots src_idx count ! k)"
      using m(2) nth_s nth_d by simp
    moreover have "\<forall>j. j \<notin> set (named_slots src_idx count) \<union> set (named_slots dst_idx count) \<longrightarrow>
        ?mem' (?dst c) ! j = mem (?dst c) ! j"
      using m(3) unfolding set_d by blast
    ultimately show "length (?mem' (?dst c)) = length (mem (?dst c)) \<and>
      (\<forall>k<count. ?mem' (?dst c) ! (named_slots dst_idx count ! k) =
                    mem (fst c) ! (named_slots src_idx count ! k)) \<and>
      (\<forall>j. j \<notin> set (named_slots src_idx count) \<union> set (named_slots dst_idx count) \<longrightarrow>
           ?mem' (?dst c) ! j = mem (?dst c) ! j)"
      using m(1) by blast
  qed
  with run show "\<exists>mem'. IndexedCopy src_idx dst_idx cpys mem = Inr mem' \<and>
            (\<forall>c\<in>set cpys.
               length (mem' (fst (snd c))) = length (mem (fst (snd c))) \<and>
               (\<forall>k<count. mem' (fst (snd c)) ! (named_slots dst_idx count ! k) =
                             mem (fst c) ! (named_slots src_idx count ! k)) \<and>
               (\<forall>j. j \<notin> set (named_slots src_idx count) \<union> set (named_slots dst_idx count) \<longrightarrow>
                    mem' (fst (snd c)) ! j = mem (fst (snd c)) ! j))"
    by blast
qed

text \<open>
  The theorem at one buffer of five slots copied in place, slots 2 and 3 going to
  slots 0 and 1.
\<close>

theorem indexed_copy_witness:
  "\<exists>mem'. IndexedCopy [2, 3] [0, 1] [(0 :: nat, 0, 1)] (\<lambda>_. [10, 20, 30, 40, 50 :: int]) = Inr mem' \<and>
     length (mem' 0) = 5 \<and> mem' 0 ! 0 = 30 \<and> mem' 0 ! 1 = 40 \<and> mem' 0 ! 4 = 50"
proof -
  let ?mem = "\<lambda>_ :: nat. [10, 20, 30, 40, 50 :: int]"
  let ?cpys = "[(0 :: nat, 0 :: nat, 1 :: nat)]"
  have "\<exists>mem'. IndexedCopy [2, 3] [0, 1] ?cpys ?mem = Inr mem' \<and>
      (\<forall>c\<in>set ?cpys.
         length (mem' (fst (snd c))) = length (?mem (fst (snd c))) \<and>
         (\<forall>k<2. mem' (fst (snd c)) ! (named_slots [0, 1] 2 ! k) =
                   ?mem (fst c) ! (named_slots [2, 3] 2 ! k)) \<and>
         (\<forall>j. j \<notin> set (named_slots [2, 3] 2) \<union> set (named_slots [0, 1] 2) \<longrightarrow>
              mem' (fst (snd c)) ! j = ?mem (fst (snd c)) ! j))"
    by (rule conjunct2 [OF indexed_copy [of "[2, 3]" "[0, 1]" 2 ?cpys ?mem "[]" "[]"]])
      (simp_all add: named_slots_def)
  then obtain mem' where run: "IndexedCopy [2, 3] [0, 1] ?cpys ?mem = Inr mem'"
    and len: "length (mem' 0) = 5"
    and cp: "\<forall>k<2. mem' 0 ! ([0, 1] ! k) = [10, 20, 30, 40, 50 :: int] ! ([2, 3] ! k)"
    and keep: "\<forall>j. j \<notin> {2, 3} \<union> {0, 1 :: nat} \<longrightarrow> mem' 0 ! j = [10, 20, 30, 40, 50 :: int] ! j"
    by (auto simp: named_slots_def)
  have "(0 :: nat) < 2" and "(1 :: nat) < 2" by simp_all
  with cp have "mem' 0 ! ([0, 1] ! 0) = [10, 20, 30, 40, 50 :: int] ! ([2, 3] ! 0)"
    and "mem' 0 ! ([0, 1] ! 1) = [10, 20, 30, 40, 50 :: int] ! ([2, 3] ! 1)"
    by blast+
  then have a: "mem' 0 ! 0 = 30" and b: "mem' 0 ! 1 = 40" by simp_all
  from keep have "(4 :: nat) \<notin> {2, 3} \<union> {0, 1 :: nat} \<longrightarrow> mem' 0 ! 4 = [10, 20, 30, 40, 50 :: int] ! 4"
    by (rule spec)
  then have c: "mem' 0 ! 4 = 50" by simp
  from run len a b c show ?thesis by blast
qed

text \<open>
  Against claim C8 as stated, which asks of the two lists only that they are disjoint:
  the lists \<open>[2, 3]\<close> and \<open>[1, 1]\<close> pass the check and share no index, yet slot 1 is
  named twice as a destination. After the copy it holds the contents of slot 3, and not
  the contents slot \<open>src_idx[0] = 2\<close> had before the copy.
\<close>

theorem indexed_copy_repeated_destination:
  "\<exists>mem'. IndexedCopy [2, 3] [1, 1] [(0 :: nat, 0, 1)] (\<lambda>_. [10, 20, 30, 40 :: int]) = Inr mem' \<and>
     mem' 0 = [10, 40, 30, 40] \<and>
     set [2, 3 :: nat] \<inter> set [1, 1] = {} \<and>
     mem' 0 ! ([1, 1] ! 0) \<noteq> [10, 20, 30, 40] ! ([2, 3] ! 0)"
proof -
  have two: "[0..<2] = [0, Suc 0]" by (simp add: numeral_2_eq_2)
  show ?thesis
    by (simp add: IndexedCopy_def IndexedCopyImpl_def invokeIndexedCopy_def copy_slot_def
        slot_index_def two)
qed

end
